theory Spec2Isabelle
  imports Complex_Main "HOL-Library.Word" "HOL-Library.Multiset" "HOL-Library.Product_Lexorder"
begin

chapter \<open>Parameter samplers of the tensor augmentations\<close>

text \<open>
  A shallow embedding of the parameter computations of
  \<^verbatim>\<open>albumentations/pytorch/augmentations/dual/transforms.py\<close> and of the decorator
  \<^verbatim>\<open>on_float_image\<close> of \<^verbatim>\<open>albumentations/pytorch/augmentations/utils.py\<close>.
  Python integers are \<^typ>\<open>int\<close>. A Python or NumPy float is the rational number it
  denotes, and every float operation rounds its exact result to the nearest float, ties to
  even, as IEEE 754 prescribes. The random sources are explicit state.
\<close>

section \<open>Floating-point numbers\<close>

text \<open>
  A binary float with \<open>p\<close> significant bits is \<open>m * 2 ^ j\<close> with \<open>\<bar>m\<bar> < 2 ^ p\<close>. The
  exponent range is not modelled: every float of this development is zero or has a
  magnitude far inside the normal range of its format.
\<close>

function blen :: "int \<Rightarrow> nat" where
  \<comment> \<open>the number of bits of a positive integer\<close>
  "blen k = (if k \<le> 0 then 0 else Suc (blen (k div 2)))"
  by pat_completeness auto
termination
  by (relation "measure nat") auto

declare blen.simps [simp del]

definition ilog2 :: "rat \<Rightarrow> int" where
  \<comment> \<open>the binary exponent of a positive number: \<open>2 ^ ilog2 x \<le> x < 2 ^ (ilog2 x + 1)\<close>\<close>
  "ilog2 x = (if 1 \<le> x then int (blen \<lfloor>x\<rfloor>) - 1
              else - int (blen (\<lceil>1 / x\<rceil> - 1)))"

definition round_half_even :: "rat \<Rightarrow> int" where
  "round_half_even x =
     (let f = \<lfloor>x\<rfloor>; d = x - of_int f
      in if d < 1 / 2 then f else if 1 / 2 < d then f + 1 else if even f then f else f + 1)"

definition ulp :: "nat \<Rightarrow> rat \<Rightarrow> rat" where
  \<comment> \<open>the spacing of the floats with \<open>p\<close> bits in the binade of \<open>x\<close>\<close>
  "ulp p x = 2 powi (ilog2 x - (int p - 1))"

definition fl_pos :: "nat \<Rightarrow> rat \<Rightarrow> rat" where
  "fl_pos p x = of_int (round_half_even (x / ulp p x)) * ulp p x"

definition fl :: "nat \<Rightarrow> rat \<Rightarrow> rat" where
  \<comment> \<open>rounding to the nearest float with \<open>p\<close> significant bits, ties to even\<close>
  "fl p x = (if x = 0 then 0 else if 0 < x then fl_pos p x else - fl_pos p (- x))"

definition fl64 :: "rat \<Rightarrow> rat" where
  \<comment> \<open>Python \<^verbatim>\<open>float\<close>, NumPy \<^verbatim>\<open>float64\<close>\<close>
  "fl64 = fl 53"

definition fl32 :: "rat \<Rightarrow> rat" where
  \<comment> \<open>\<^verbatim>\<open>torch.float32\<close>\<close>
  "fl32 = fl 24"

definition float_of_int :: "int \<Rightarrow> rat" where
  \<comment> \<open>\<^verbatim>\<open>float(k)\<close>, and the conversion of an int operand of a float operation\<close>
  "float_of_int k = fl64 (of_int k)"

definition int_of_float :: "rat \<Rightarrow> int" where
  \<comment> \<open>\<^verbatim>\<open>int(x)\<close> and \<^verbatim>\<open>astype(int)\<close>: truncation towards zero\<close>
  "int_of_float x = (if 0 \<le> x then \<lfloor>x\<rfloor> else \<lceil>x\<rceil>)"

definition py_round :: "rat \<Rightarrow> int" where
  \<comment> \<open>\<^verbatim>\<open>round(x)\<close> of Python 3 and \<^verbatim>\<open>torch.round\<close>: to the nearest integer, ties to even\<close>
  "py_round x = round_half_even x"

section \<open>Errors and the random sources\<close>

datatype value_error =
    CropLargerThanImage int int int int
  | GridNotPositive int int
  | GridCellTooSmall
  | EmptyRange
  | MathDomain

datatype error = ValueError value_error | IndexError | ZeroDivisionError

fun invalid_configuration :: "error \<Rightarrow> bool" where
  \<comment> \<open>the errors that the transforms raise themselves about their configuration\<close>
  "invalid_configuration (ValueError (CropLargerThanImage h w mh mw)) = True"
| "invalid_configuration (ValueError (GridNotPositive n m)) = True"
| "invalid_configuration (ValueError GridCellTooSmall) = True"
| "invalid_configuration e = False"

text \<open>
  A random source is the sequence of its raw outcomes and the number of outcomes consumed
  so far; a draw below \<open>n\<close> reduces the next raw outcome into \<open>{0..<n}\<close>. Every sequence
  of draws that the library generators can produce is obtained from some raw sequence.
\<close>

type_synonym rand_state = "(nat \<Rightarrow> nat) \<times> nat"

definition randbelow :: "nat \<Rightarrow> rand_state \<Rightarrow> nat \<times> rand_state" where
  "randbelow n g = (fst g (snd g) mod n, (fst g, Suc (snd g)))"

definition randint :: "int \<Rightarrow> int \<Rightarrow> rand_state \<Rightarrow> error + int \<times> rand_state" where
  \<comment> \<open>\<^verbatim>\<open>random.randint(a, b)\<close>: uniform on \<open>{a..b}\<close>, ValueError on an empty range\<close>
  "randint a b g =
     (if b < a then Inl (ValueError EmptyRange)
      else (case randbelow (nat (b - a + 1)) g of (k, g') \<Rightarrow> Inr (a + int k, g')))"

definition choice :: "'a list \<Rightarrow> rand_state \<Rightarrow> error + 'a \<times> rand_state" where
  \<comment> \<open>\<^verbatim>\<open>random.choice(seq)\<close>: IndexError on an empty sequence\<close>
  "choice xs g =
     (if xs = [] then Inl IndexError
      else (case randbelow (length xs) g of (k, g') \<Rightarrow> Inr (xs ! k, g')))"

section \<open>PadIfNeededTorch\<close>

record pad_if_needed =
  min_height :: int
  min_width :: int

record pad_params =
  pad_top :: int
  pad_bottom :: int
  pad_left :: int
  pad_right :: int

definition half_pad :: "int \<Rightarrow> int" where
  \<comment> \<open>\<^verbatim>\<open>int(d / 2.0)\<close>\<close>
  "half_pad d = int_of_float (fl64 (float_of_int d / 2))"

definition update_params :: "pad_if_needed \<Rightarrow> int \<Rightarrow> int \<Rightarrow> pad_params" where
  \<comment> \<open>\<open>rows\<close> and \<open>cols\<close> are \<^verbatim>\<open>params["rows"]\<close> and \<^verbatim>\<open>params["cols"]\<close>\<close>
  "update_params self rows cols =
     (let (h_pad_top, h_pad_bottom) =
            (if rows < min_height self
             then (let h_pad_top = half_pad (min_height self - rows)
                   in (h_pad_top, min_height self - rows - h_pad_top))
             else (0, 0));
          (w_pad_left, w_pad_right) =
            (if cols < min_width self
             then (let w_pad_left = half_pad (min_width self - cols)
                   in (w_pad_left, min_width self - cols - w_pad_left))
             else (0, 0))
      in \<lparr>pad_top = h_pad_top, pad_bottom = h_pad_bottom,
          pad_left = w_pad_left, pad_right = w_pad_right\<rparr>)"

section \<open>CropNonEmptyMaskIfExistsTorch\<close>

text \<open>
  A mask tensor is its shape together with its element at each index: rank 2
  \<open>(height, width)\<close> or rank 3 \<open>(channels, height, width)\<close>. The type of its elements
  stands for its dtype: 8-bit words for \<^verbatim>\<open>torch.uint8\<close>, 64-bit words for \<^verbatim>\<open>torch.int64\<close>,
  rational numbers for the values of a float type.

  What torch computes from the elements depends on the dtype. The operations that the
  sampler uses are a parameter of the model: the comparison \<^verbatim>\<open>x == v\<close> of an element with
  a Python integer, the test \<^verbatim>\<open>t.sum() == 0\<close> on the elements of a tensor in row-major
  order, and the test \<^verbatim>\<open>t.sum(dim=0)[y, x] == 0\<close> on the channel values of a pixel.
  For the integer types the scalar is converted to the dtype and the sums are taken in
  int64, both with wrap-around. For a float type the sums depend on the order in which
  torch adds the elements, which it does not fix; the summation is a parameter there.
\<close>

datatype 'a mask =
    Mask2 nat nat "nat \<Rightarrow> nat \<Rightarrow> 'a"
  | Mask3 nat nat nat "nat \<Rightarrow> nat \<Rightarrow> nat \<Rightarrow> 'a"

record 'a dtype_ops =
  eq_scalar :: "'a \<Rightarrow> int \<Rightarrow> bool"
  sum_is_zero :: "'a list \<Rightarrow> bool"
  sum0_is_zero :: "'a list \<Rightarrow> bool"

definition uint8_ops :: "8 word dtype_ops" where
  "uint8_ops =
     \<lparr>eq_scalar = (\<lambda>x v. x = word_of_int v),
      sum_is_zero = (\<lambda>xs. (\<Sum>x\<leftarrow>xs. (ucast x :: 64 word)) = 0),
      sum0_is_zero = (\<lambda>xs. (\<Sum>x\<leftarrow>xs. (ucast x :: 64 word)) = 0)\<rparr>"

definition int64_ops :: "64 word dtype_ops" where
  "int64_ops =
     \<lparr>eq_scalar = (\<lambda>x v. x = word_of_int v),
      sum_is_zero = (\<lambda>xs. sum_list xs = 0),
      sum0_is_zero = (\<lambda>xs. sum_list xs = 0)\<rparr>"

definition float_ops :: "(int \<Rightarrow> rat) \<Rightarrow> (rat list \<Rightarrow> rat) \<Rightarrow> rat dtype_ops" where
  \<comment> \<open>for the conversion \<open>to_float\<close> of an integer and the summation \<open>add_all\<close> of torch\<close>
  "float_ops to_float add_all =
     \<lparr>eq_scalar = (\<lambda>x v. x = to_float v),
      sum_is_zero = (\<lambda>xs. add_all xs = 0),
      sum0_is_zero = (\<lambda>xs. add_all xs = 0)\<rparr>"

record crop_non_empty_mask =
  self_height :: int
  self_width :: int
  ignore_values :: "int list option"
  ignore_channels :: "nat list option"

record crop_rect =
  x_min :: int
  x_max :: int
  y_min :: int
  y_max :: int

definition and_then :: "error + 'a \<Rightarrow> ('a \<Rightarrow> error + 'b) \<Rightarrow> error + 'b" where
  \<comment> \<open>sequencing: an exception of the first computation ends the call\<close>
  "and_then r f = (case r of Inl e \<Rightarrow> Inl e | Inr v \<Rightarrow> f v)"

fun mask_shape :: "'a mask \<Rightarrow> nat \<times> nat" where
  \<comment> \<open>\<^verbatim>\<open>mask.shape[-2:]\<close>\<close>
  "mask_shape (Mask2 h w f) = (h, w)"
| "mask_shape (Mask3 c h w f) = (h, w)"

fun zero_value :: "'a::zero dtype_ops \<Rightarrow> int \<Rightarrow> 'a mask \<Rightarrow> 'a mask" where
  \<comment> \<open>\<^verbatim>\<open>torch.where(mask == v, zeros, mask)\<close>\<close>
  "zero_value dt v (Mask2 h w f) =
     Mask2 h w (\<lambda>y x. if eq_scalar dt (f y x) v then 0 else f y x)"
| "zero_value dt v (Mask3 c h w f) =
     Mask3 c h w (\<lambda>k y x. if eq_scalar dt (f k y x) v then 0 else f k y x)"

fun keep_channels :: "nat list \<Rightarrow> 'a mask \<Rightarrow> 'a mask" where
  \<comment> \<open>\<^verbatim>\<open>mask[target_channels]\<close> of a rank 3 mask\<close>
  "keep_channels ign (Mask3 c h w f) =
     (let target_channels = filter (\<lambda>ch. ch \<notin> set ign) [0..<c]
      in Mask3 (length target_channels) h w (\<lambda>k. f (target_channels ! k)))"
| "keep_channels ign (Mask2 h w f) = Mask2 h w f"

definition filtered_mask ::
  "'a::zero dtype_ops \<Rightarrow> crop_non_empty_mask \<Rightarrow> 'a mask \<Rightarrow> 'a mask" where
  \<comment> \<open>the mask after the ignored values and the ignored channels are removed\<close>
  "filtered_mask dt self mask0 =
     (let msk = (case ignore_values self of
                   None \<Rightarrow> mask0
                 | Some vs \<Rightarrow> fold (zero_value dt) (remdups vs) mask0)
      in case ignore_channels self of
           None \<Rightarrow> msk
         | Some ign \<Rightarrow> keep_channels ign msk)"

fun elements :: "'a mask \<Rightarrow> 'a list" where
  \<comment> \<open>the elements in row-major order\<close>
  "elements (Mask2 h w f) = concat (map (\<lambda>y. map (\<lambda>x. f y x) [0..<w]) [0..<h])"
| "elements (Mask3 c h w f) =
     concat (map (\<lambda>k. concat (map (\<lambda>y. map (\<lambda>x. f k y x) [0..<w]) [0..<h])) [0..<c])"

definition mask_sum_is_zero :: "'a dtype_ops \<Rightarrow> 'a mask \<Rightarrow> bool" where
  \<comment> \<open>\<^verbatim>\<open>mask.sum() == 0\<close>\<close>
  "mask_sum_is_zero dt msk = sum_is_zero dt (elements msk)"

fun non_zero_yx :: "'a::zero dtype_ops \<Rightarrow> 'a mask \<Rightarrow> (nat \<times> nat) list" where
  \<comment> \<open>\<^verbatim>\<open>torch.nonzero(mask.sum(dim=0) if mask.ndim == 3 else mask)\<close>: the indices
      \<open>(y, x)\<close> of the non-zero elements in row-major order\<close>
  "non_zero_yx dt (Mask2 h w f) =
     concat (map (\<lambda>y. map (\<lambda>x. (y, x)) (filter (\<lambda>x. f y x \<noteq> 0) [0..<w])) [0..<h])"
| "non_zero_yx dt (Mask3 c h w f) =
     concat (map (\<lambda>y. map (\<lambda>x. (y, x))
        (filter (\<lambda>x. \<not> sum0_is_zero dt (map (\<lambda>k. f k y x) [0..<c])) [0..<w])) [0..<h])"

definition has_nonzero_pixel :: "'a::zero mask \<Rightarrow> bool" where
  "has_nonzero_pixel msk = list_ex (\<lambda>v. v \<noteq> 0) (elements msk)"

definition clamp :: "int \<Rightarrow> int \<Rightarrow> int \<Rightarrow> int" where
  \<comment> \<open>\<^verbatim>\<open>torch.clamp(x, lo, hi)\<close>\<close>
  "clamp x lo hi = min (max x lo) hi"

definition crop_at :: "crop_non_empty_mask \<Rightarrow> int \<Rightarrow> int \<Rightarrow> crop_rect" where
  "crop_at self x y =
     \<lparr>x_min = x, x_max = x + self_width self, y_min = y, y_max = y + self_height self\<rparr>"

definition cnem_get_params ::
  "'a::zero dtype_ops \<Rightarrow> crop_non_empty_mask \<Rightarrow> 'a mask \<Rightarrow> rand_state
    \<Rightarrow> error + crop_rect \<times> rand_state" where
  \<comment> \<open>\<^verbatim>\<open>CropNonEmptyMaskIfExistsTorch.get_params_dependent_on_targets\<close> for a mask of
      the dtype \<open>dt\<close>\<close>
  "cnem_get_params dt self mask0 g =
     (let (mask_height, mask_width) = mask_shape mask0;
          msk = filtered_mask dt self mask0
      in if int mask_height < self_height self \<or> int mask_width < self_width self
         then Inl (ValueError (CropLargerThanImage
                (self_height self) (self_width self) (int mask_height) (int mask_width)))
         else if mask_sum_is_zero dt msk
         then and_then (randint 0 (int mask_width - self_width self) g) (\<lambda>(x_min, g).
              and_then (randint 0 (int mask_height - self_height self) g) (\<lambda>(y_min, g).
              Inr (crop_at self x_min y_min, g)))
         else and_then (choice (non_zero_yx dt msk) g) (\<lambda>((y, x), g).
              and_then (randint 0 (self_width self - 1) g) (\<lambda>(dx, g).
              and_then (randint 0 (self_height self - 1) g) (\<lambda>(dy, g).
              Inr (crop_at self
                     (clamp (int x - dx) 0 (int mask_width - self_width self))
                     (clamp (int y - dy) 0 (int mask_height - self_height self)), g)))))"

definition example_crop :: crop_non_empty_mask where
  "example_crop =
     \<lparr>self_height = 2, self_width = 2, ignore_values = Some [7], ignore_channels = None\<rparr>"

definition example_mask :: "8 word mask" where
  \<comment> \<open>a \<open>3 \<times> 4\<close> uint8 mask with the label 7 at \<open>(0, 0)\<close> and the label 1 at \<open>(1, 2)\<close>\<close>
  "example_mask =
     Mask2 3 4 (\<lambda>y x. if y = 0 \<and> x = 0 then 7 else if y = 1 \<and> x = 2 then 1 else 0)"

definition example_rand :: rand_state where
  "example_rand = ((\<lambda>k. 3 * k + 1), 0)"

definition unit_crop :: crop_non_empty_mask where
  "unit_crop =
     \<lparr>self_height = 1, self_width = 1, ignore_values = None, ignore_channels = None\<rparr>"

definition flat_crop :: crop_non_empty_mask where
  \<comment> \<open>a crop of the width 0\<close>
  "flat_crop =
     \<lparr>self_height = 1, self_width = 0, ignore_values = None, ignore_channels = None\<rparr>"

definition signed_mask :: "64 word mask" where
  \<comment> \<open>the \<open>1 \<times> 3\<close> int64 mask \<open>[[1, -1, 0]]\<close>\<close>
  "signed_mask = Mask2 1 3 (\<lambda>y x. if x = 0 then 1 else if x = 1 then - 1 else 0)"

definition constant_rand :: rand_state where
  \<comment> \<open>a state of \<^verbatim>\<open>random\<close> whose raw outcomes are all 2\<close>
  "constant_rand = ((\<lambda>k. 2), 0)"

section \<open>The decorator on\_float\_image\<close>

text \<open>
  An image tensor is its element type together with its elements in row-major order (the
  decorator works elementwise, so the shape plays no role). Elements of type
  \<^verbatim>\<open>torch.uint8\<close> are 8-bit words.
\<close>

datatype dtype = UInt8 | Int64 | Float32 | Float64

datatype tensor = U8 "8 word list" | I64 "int list" | F32 "rat list" | F64 "rat list"

fun dtype_of :: "tensor \<Rightarrow> dtype" where
  "dtype_of (U8 ws) = UInt8"
| "dtype_of (I64 ks) = Int64"
| "dtype_of (F32 xs) = Float32"
| "dtype_of (F64 xs) = Float64"

fun to_float32 :: "tensor \<Rightarrow> tensor" where
  \<comment> \<open>\<^verbatim>\<open>t.to(torch.float32)\<close>\<close>
  "to_float32 (U8 ws) = F32 (map (\<lambda>w. fl32 (of_nat (unat w))) ws)"
| "to_float32 (I64 ks) = F32 (map (\<lambda>k. fl32 (of_int k)) ks)"
| "to_float32 (F32 xs) = F32 xs"
| "to_float32 (F64 xs) = F32 (map fl32 xs)"

fun div_scalar :: "tensor \<Rightarrow> rat \<Rightarrow> tensor" where
  \<comment> \<open>\<^verbatim>\<open>t / c\<close> for a Python float \<open>c\<close>: an integer tensor is promoted to float32\<close>
  "div_scalar (F32 xs) c = F32 (map (\<lambda>v. fl32 (v / c)) xs)"
| "div_scalar (F64 xs) c = F64 (map (\<lambda>v. fl64 (v / c)) xs)"
| "div_scalar (U8 ws) c = F32 (map (\<lambda>w. fl32 (fl32 (of_nat (unat w)) / c)) ws)"
| "div_scalar (I64 ks) c = F32 (map (\<lambda>k. fl32 (fl32 (of_int k) / c)) ks)"

fun mul_scalar :: "tensor \<Rightarrow> rat \<Rightarrow> tensor" where
  \<comment> \<open>\<^verbatim>\<open>t * c\<close> for a Python float \<open>c\<close>: an integer tensor is promoted to float32\<close>
  "mul_scalar (F32 xs) c = F32 (map (\<lambda>v. fl32 (v * c)) xs)"
| "mul_scalar (F64 xs) c = F64 (map (\<lambda>v. fl64 (v * c)) xs)"
| "mul_scalar (U8 ws) c = F32 (map (\<lambda>w. fl32 (fl32 (of_nat (unat w)) * c)) ws)"
| "mul_scalar (I64 ks) c = F32 (map (\<lambda>k. fl32 (fl32 (of_int k) * c)) ks)"

fun round_t :: "tensor \<Rightarrow> tensor" where
  \<comment> \<open>\<^verbatim>\<open>torch.round\<close>; the nearest integer of a float is a float\<close>
  "round_t (F32 xs) = F32 (map (\<lambda>v. of_int (py_round v)) xs)"
| "round_t (F64 xs) = F64 (map (\<lambda>v. of_int (py_round v)) xs)"
| "round_t t = t"

fun clamp_t :: "tensor \<Rightarrow> int \<Rightarrow> int \<Rightarrow> tensor" where
  \<comment> \<open>\<^verbatim>\<open>torch.clamp(t, lo, hi)\<close>\<close>
  "clamp_t (F32 xs) lo hi = F32 (map (\<lambda>v. min (max v (of_int lo)) (of_int hi)) xs)"
| "clamp_t (F64 xs) lo hi = F64 (map (\<lambda>v. min (max v (of_int lo)) (of_int hi)) xs)"
| "clamp_t (I64 ks) lo hi = I64 (map (\<lambda>k. min (max k lo) hi) ks)"
| "clamp_t (U8 ws) lo hi = U8 (map (\<lambda>w. word_of_int (min (max (uint w) lo) hi)) ws)"

fun to_uint8 :: "tensor \<Rightarrow> tensor" where
  \<comment> \<open>\<^verbatim>\<open>t.to(torch.uint8)\<close>: a float is truncated, an integer is reduced modulo 256\<close>
  "to_uint8 (U8 ws) = U8 ws"
| "to_uint8 (I64 ks) = U8 (map word_of_int ks)"
| "to_uint8 (F32 xs) = U8 (map (\<lambda>v. word_of_int (int_of_float v)) xs)"
| "to_uint8 (F64 xs) = U8 (map (\<lambda>v. word_of_int (int_of_float v)) xs)"

definition on_float_image :: "(tensor \<Rightarrow> tensor) \<Rightarrow> tensor \<Rightarrow> tensor" where
  \<comment> \<open>on the second path \<^verbatim>\<open>img.dtype\<close> is \<^verbatim>\<open>torch.uint8\<close>\<close>
  "on_float_image func img =
     (if dtype_of img \<noteq> UInt8 then func img
      else (let tmp = div_scalar (to_float32 img) 255;
                result = func tmp;
                result = to_uint8 (clamp_t (round_t (mul_scalar result 255)) 0 255)
            in result))"

definition rescale_pixel :: "rat \<Rightarrow> 8 word" where
  \<comment> \<open>what the decorator makes of one float32 element of the result of \<open>func\<close>\<close>
  "rescale_pixel r = word_of_int (min (max (py_round (fl32 (r * 255))) 0) 255)"

section \<open>RandomResizedCropTorch\<close>

record random_resized_crop =
  self_scale :: "rat \<times> rat"
  self_ratio :: "rat \<times> rat"

record sized_crop_params =
  crop_height :: int
  crop_width :: int
  h_start :: rat
  w_start :: rat

definition start_fraction :: "int \<Rightarrow> int \<Rightarrow> rat" where
  \<comment> \<open>\<^verbatim>\<open>i * 1.0 / (slack + 1e-10)\<close>; the literal is the float nearest to \<open>10 ^ (-10)\<close>\<close>
  "start_fraction i slack =
     fl64 (fl64 (float_of_int i * 1) / fl64 (float_of_int slack + fl64 (1 / 10 ^ 10)))"

definition sized_crop :: "int \<Rightarrow> int \<Rightarrow> int \<Rightarrow> int \<Rightarrow> int \<Rightarrow> int \<Rightarrow> sized_crop_params" where
  \<comment> \<open>the dictionary that both return statements build\<close>
  "sized_crop height width h w i j =
     \<lparr>crop_height = h, crop_width = w,
      h_start = start_fraction i (height - h), w_start = start_fraction j (width - w)\<rparr>"

definition accepted :: "int \<Rightarrow> int \<Rightarrow> int \<times> int \<Rightarrow> bool" where
  \<comment> \<open>\<^verbatim>\<open>0 < w <= width and 0 < h <= height\<close> for a candidate \<open>(w, h)\<close>\<close>
  "accepted height width c = (0 < fst c \<and> fst c \<le> width \<and> 0 < snd c \<and> snd c \<le> height)"

text \<open>
  The candidate \<open>(w, h)\<close> of an attempt is computed from two uniform floats with
  \<^verbatim>\<open>math.log\<close>, \<^verbatim>\<open>math.exp\<close> and \<^verbatim>\<open>math.sqrt\<close>; the candidates of the attempts are an
  input of the model. The loop returns at the first accepted candidate.
\<close>

fun attempts ::
  "int \<Rightarrow> int \<Rightarrow> (int \<times> int) list \<Rightarrow> rand_state
    \<Rightarrow> (error + sized_crop_params \<times> rand_state) option" where
  "attempts height width [] g = None"
| "attempts height width (c # cs) g =
     (if accepted height width c
      then Some (and_then (randint 0 (height - snd c) g) (\<lambda>(i, g).
                 and_then (randint 0 (width - fst c) g) (\<lambda>(j, g).
                 Inr (sized_crop height width (snd c) (fst c) i j, g))))
      else attempts height width cs g)"

definition central_crop :: "random_resized_crop \<Rightarrow> int \<Rightarrow> int \<Rightarrow> rat \<Rightarrow> sized_crop_params" where
  \<comment> \<open>the fallback, after \<^verbatim>\<open>in_ratio = width / height\<close>\<close>
  "central_crop self height width in_ratio =
     (let ratio_min = min (fst (self_ratio self)) (snd (self_ratio self));
          ratio_max = max (fst (self_ratio self)) (snd (self_ratio self));
          (w, h) =
            (if in_ratio < ratio_min
             then (width, py_round (fl64 (float_of_int width / ratio_min)))
             else if ratio_max < in_ratio
             then (py_round (fl64 (float_of_int height * ratio_max)), height)
             else (width, height));
          i = (height - h) div 2;
          j = (width - w) div 2
      in sized_crop height width h w i j)"

definition rrc_get_params ::
  "random_resized_crop \<Rightarrow> int \<Rightarrow> int \<Rightarrow> (nat \<Rightarrow> int \<times> int) \<Rightarrow> rand_state
    \<Rightarrow> error + sized_crop_params \<times> rand_state" where
  \<comment> \<open>\<^verbatim>\<open>RandomResizedCropTorch.get_params_dependent_on_targets\<close> for an image of the
      given height and width; \<^verbatim>\<open>math.log\<close> refuses a ratio that is not positive\<close>
  "rrc_get_params self height width cand g =
     (if fst (self_ratio self) \<le> 0 \<or> snd (self_ratio self) \<le> 0
      then Inl (ValueError MathDomain)
      else (case attempts height width (map cand [0..<10]) g of
              Some r \<Rightarrow> r
            | None \<Rightarrow>
                if height = 0 then Inl ZeroDivisionError
                else Inr (central_crop self height width (fl64 (of_int width / of_int height)), g)))"

definition example_rrc :: random_resized_crop where
  "example_rrc = \<lparr>self_scale = (1, 1), self_ratio = (3, 3)\<rparr>"

section \<open>RandomGridShuffleTorch\<close>

subsection \<open>NumPy arrays\<close>

text \<open>
  A one-dimensional array is a list, a two-dimensional array the list of its rows. The
  arrays that are only used through their row-major flattening (\<^verbatim>\<open>tiles_sizes\<close>,
  \<^verbatim>\<open>eq_mat\<close>, \<^verbatim>\<open>new_index_matrix\<close>: boolean-mask indexing and \<^verbatim>\<open>reshape\<close> read and
  write in row-major order) are kept flattened; their last axis of length 2 is a pair.
\<close>

definition linspace :: "int \<Rightarrow> int \<Rightarrow> nat \<Rightarrow> int list" where
  \<comment> \<open>\<^verbatim>\<open>np.linspace(start, stop, num, dtype=np.int)\<close>\<close>
  "linspace start stop num =
     (let dv = num - 1;
          start' = fl64 (float_of_int start * 1);
          stop' = fl64 (float_of_int stop * 1);
          delta = fl64 (stop' - start');
          y = map (\<lambda>i. float_of_int (int i)) [0..<num];
          y = (if 0 < dv
               then (let step = fl64 (delta / float_of_int (int dv))
                     in if step = 0
                        then map (\<lambda>v. fl64 (fl64 (v / float_of_int (int dv)) * delta)) y
                        else map (\<lambda>v. fl64 (v * step)) y)
               else map (\<lambda>v. fl64 (v * delta)) y);
          y = map (\<lambda>v. fl64 (v + start')) y;
          y = (if 1 < num then y[num - 1 := stop'] else y)
      in map int_of_float y)"

definition meshgrid_ij :: "'a list \<Rightarrow> 'a list \<Rightarrow> 'a list list \<times> 'a list list" where
  \<comment> \<open>\<^verbatim>\<open>np.meshgrid(xs, ys, indexing="ij")\<close>\<close>
  "meshgrid_ij xs ys = (map (\<lambda>x. map (\<lambda>y. x) ys) xs, map (\<lambda>x. ys) xs)"

definition without_last :: "'a list list \<Rightarrow> 'a list list" where
  \<comment> \<open>\<^verbatim>\<open>a[:-1, :-1]\<close>\<close>
  "without_last a = map butlast (butlast a)"

definition without_first :: "'a list list \<Rightarrow> 'a list list" where
  \<comment> \<open>\<^verbatim>\<open>a[1:, 1:]\<close>\<close>
  "without_first a = map tl (tl a)"

definition subtract :: "int list list \<Rightarrow> int list list \<Rightarrow> int list list" where
  \<comment> \<open>\<^verbatim>\<open>a - b\<close> for arrays of one shape\<close>
  "subtract a b = map2 (map2 (\<lambda>x y. x - y)) a b"

definition stack_axis2 :: "'a list list \<Rightarrow> 'b list list \<Rightarrow> ('a \<times> 'b) list list" where
  \<comment> \<open>\<^verbatim>\<open>np.stack((a, b), axis=2)\<close>\<close>
  "stack_axis2 a b = map2 zip a b"

definition indices :: "nat \<Rightarrow> nat \<Rightarrow> (nat \<times> nat) list list" where
  \<comment> \<open>\<^verbatim>\<open>np.stack(np.indices((n, m)), axis=2)\<close>\<close>
  "indices n m = map (\<lambda>i. map (\<lambda>j. (i, j)) [0..<m]) [0..<n]"

definition unique_rows :: "(int \<times> int) list \<Rightarrow> (int \<times> int) list" where
  \<comment> \<open>\<^verbatim>\<open>np.unique(a, axis=0)\<close>: the distinct rows in lexicographic order\<close>
  "unique_rows a = sort (remdups a)"

fun mask_get :: "'a list \<Rightarrow> bool list \<Rightarrow> 'a list" where
  \<comment> \<open>\<^verbatim>\<open>a[mask]\<close>\<close>
  "mask_get (x # xs) (b # bs) = (if b then x # mask_get xs bs else mask_get xs bs)"
| "mask_get xs bs = []"

fun mask_set :: "'a list \<Rightarrow> bool list \<Rightarrow> 'a list \<Rightarrow> 'a list" where
  \<comment> \<open>\<^verbatim>\<open>a[mask] = vs\<close>, where \<open>vs\<close> has as many elements as the mask selects\<close>
  "mask_set (x # xs) (b # bs) vs =
     (if b then (case vs of [] \<Rightarrow> x # xs | v # vs' \<Rightarrow> v # mask_set xs bs vs')
      else x # mask_set xs bs vs)"
| "mask_set xs bs vs = xs"

definition fancy_index :: "'a list list \<Rightarrow> (nat \<times> nat) list \<Rightarrow> error + 'a list" where
  \<comment> \<open>\<^verbatim>\<open>a[rows, cols].reshape(-1)\<close>: IndexError on an index out of bounds\<close>
  "fancy_index a idx =
     (if list_all (\<lambda>(r, c). r < length a \<and> c < length (a ! r)) idx
      then Inr (map (\<lambda>(r, c). a ! r ! c) idx)
      else Inl IndexError)"

subsection \<open>The permutation of a random state\<close>

definition swap :: "'a list \<Rightarrow> nat \<Rightarrow> nat \<Rightarrow> 'a list" where
  "swap xs i j = xs[i := xs ! j, j := xs ! i]"

fun shuffle :: "nat \<Rightarrow> 'a list \<Rightarrow> rand_state \<Rightarrow> 'a list \<times> rand_state" where
  \<comment> \<open>the loop \<^verbatim>\<open>for i in reversed(range(1, n)): j = rk_interval(i); swap(x[i], x[j])\<close>
      from \<open>i\<close> downwards; \<^verbatim>\<open>rk_interval(i)\<close> draws from \<open>{0..i}\<close>\<close>
  "shuffle 0 xs g = (xs, g)"
| "shuffle (Suc i) xs g = (case randbelow (Suc (Suc i)) g of (j, g') \<Rightarrow> shuffle i (swap xs (Suc i) j) g')"

definition permutation :: "'a list \<Rightarrow> rand_state \<Rightarrow> 'a list \<times> rand_state" where
  \<comment> \<open>\<^verbatim>\<open>random_state.permutation(x)\<close>: a shuffled copy (of the rows) of \<open>x\<close>\<close>
  "permutation xs g = shuffle (length xs - 1) xs g"

subsection \<open>The parameters\<close>

record grid =
  index_height_matrix :: "int list list"
  index_width_matrix :: "int list list"
  height_tile_sizes :: "int list list"
  width_tile_sizes :: "int list list"

definition grid_partition :: "int \<Rightarrow> int \<Rightarrow> nat \<Rightarrow> nat \<Rightarrow> grid" where
  \<comment> \<open>the partition of the image into \<open>n \<times> m\<close> tiles\<close>
  "grid_partition height width n m =
     (let height_split = linspace 0 height (n + 1);
          width_split = linspace 0 width (m + 1);
          (height_matrix, width_matrix) = meshgrid_ij height_split width_split;
          index_height_matrix = without_last height_matrix;
          index_width_matrix = without_last width_matrix;
          shifted_index_height_matrix = without_first height_matrix;
          shifted_index_width_matrix = without_first width_matrix
      in \<lparr>index_height_matrix = index_height_matrix,
          index_width_matrix = index_width_matrix,
          height_tile_sizes = subtract shifted_index_height_matrix index_height_matrix,
          width_tile_sizes = subtract shifted_index_width_matrix index_width_matrix\<rparr>)"

definition permute_group ::
  "(int \<times> int) list \<Rightarrow> int \<times> int \<Rightarrow> (nat \<times> nat) list \<times> rand_state
    \<Rightarrow> (nat \<times> nat) list \<times> rand_state" where
  \<comment> \<open>one round of the loop over the distinct tile sizes\<close>
  "permute_group tiles_sizes bbox_size st =
     (let (new_index_matrix, random_state) = st;
          eq_mat = map (\<lambda>s. s = bbox_size) tiles_sizes;
          (p, random_state) = permutation (mask_get new_index_matrix eq_mat) random_state
      in (mask_set new_index_matrix eq_mat p, random_state))"

definition permute_tiles :: "grid \<Rightarrow> nat \<Rightarrow> nat \<Rightarrow> rand_state \<Rightarrow> (nat \<times> nat) list" where
  \<comment> \<open>\<^verbatim>\<open>new_index_matrix\<close> after the loop\<close>
  "permute_tiles G n m random_state =
     (let tiles_sizes = concat (stack_axis2 (height_tile_sizes G) (width_tile_sizes G));
          new_index_matrix = concat (indices n m)
      in fst (fold (permute_group tiles_sizes) (unique_rows tiles_sizes)
                (new_index_matrix, random_state)))"

type_synonym tile = "int \<times> int \<times> int \<times> int \<times> int \<times> int"

definition stack_tiles ::
  "int list \<Rightarrow> int list \<Rightarrow> int list \<Rightarrow> int list \<Rightarrow> int list \<Rightarrow> int list \<Rightarrow> tile list" where
  \<comment> \<open>\<^verbatim>\<open>np.stack([a, b, c, d, e, f], axis=1)\<close> for arrays of one length\<close>
  "stack_tiles a b c d e f = zip a (zip b (zip c (zip d (zip e f))))"

definition make_tiles :: "grid \<Rightarrow> (nat \<times> nat) list \<Rightarrow> error + tile list" where
  \<comment> \<open>the records built from the grid and \<^verbatim>\<open>new_index_matrix\<close>\<close>
  "make_tiles G new_index_matrix =
     and_then (fancy_index (index_height_matrix G) new_index_matrix) (\<lambda>old_x.
     and_then (fancy_index (index_width_matrix G) new_index_matrix) (\<lambda>old_y.
     (let shift_x = concat (height_tile_sizes G);
          shift_y = concat (width_tile_sizes G);
          curr_x = concat (index_height_matrix G);
          curr_y = concat (index_width_matrix G)
      in Inr (stack_tiles curr_x curr_y old_x old_y shift_x shift_y))))"

definition rgs_get_params ::
  "(nat \<Rightarrow> nat \<Rightarrow> nat) \<Rightarrow> int \<times> int \<Rightarrow> int \<Rightarrow> int \<Rightarrow> rand_state
    \<Rightarrow> error + tile list \<times> rand_state" where
  \<comment> \<open>\<^verbatim>\<open>RandomGridShuffleTorch.get_params_dependent_on_targets\<close> for an image of the given
      height and width. \<open>RandomState seed\<close> is the sequence of raw outcomes of the NumPy
      generator with this seed; \<open>g\<close> is the state of the module \<^verbatim>\<open>random\<close>.\<close>
  "rgs_get_params RandomState self_grid height width g =
     (let (n, m) = self_grid
      in if n \<le> 0 \<or> m \<le> 0 then Inl (ValueError (GridNotPositive n m))
         else if height div 2 < n \<or> width div 2 < m then Inl (ValueError GridCellTooSmall)
         else and_then (randint 0 10000 g) (\<lambda>(seed, g).
              (let random_state = (RandomState (nat seed), 0);
                   G = grid_partition height width (nat n) (nat m);
                   new_index_matrix = permute_tiles G (nat n) (nat m) random_state
               in and_then (make_tiles G new_index_matrix) (\<lambda>tiles. Inr (tiles, g)))))"

definition in_tile :: "grid \<Rightarrow> nat \<times> nat \<Rightarrow> int \<times> int \<Rightarrow> bool" where
  \<comment> \<open>the pixel \<open>(y, x)\<close> lies in the tile \<open>(i, j)\<close> of the grid\<close>
  "in_tile G t p =
     (let top = index_height_matrix G ! fst t ! snd t;
          left = index_width_matrix G ! fst t ! snd t
      in top \<le> fst p \<and> fst p < top + height_tile_sizes G ! fst t ! snd t
       \<and> left \<le> snd p \<and> snd p < left + width_tile_sizes G ! fst t ! snd t)"

definition tile_size :: "grid \<Rightarrow> nat \<times> nat \<Rightarrow> int \<times> int" where
  \<comment> \<open>the size signature \<open>(height, width)\<close> of the tile \<open>(i, j)\<close>\<close>
  "tile_size G t = (height_tile_sizes G ! fst t ! snd t, width_tile_sizes G ! fst t ! snd t)"

definition tile_corner :: "grid \<Rightarrow> nat \<times> nat \<Rightarrow> int \<times> int" where
  \<comment> \<open>the top-left pixel \<open>(top, left)\<close> of the tile \<open>(i, j)\<close>\<close>
  "tile_corner G t = (index_height_matrix G ! fst t ! snd t, index_width_matrix G ! fst t ! snd t)"

subsection \<open>The apply stage\<close>

text \<open>
  \<^verbatim>\<open>RandomGridShuffleTorch.apply\<close> passes the records to \<^verbatim>\<open>F.swap_tiles_on_image\<close>, a
  function of the module \<^verbatim>\<open>albumentations.pytorch.augmentations.functional\<close>, which lies
  outside the modules embedded in this theory. It is modelled from the specification: a
  record is \<open>(src_row, src_col, dst_row, dst_col, tile_height, tile_width)\<close>, the data
  needed to copy the content of a tile into the top-left offset of its destination.
\<close>

definition copy_tile :: "(int \<times> int \<Rightarrow> 'p) \<Rightarrow> tile \<Rightarrow> (int \<times> int \<Rightarrow> 'p) \<Rightarrow> int \<times> int \<Rightarrow> 'p" where
  \<comment> \<open>Modelled from the spec: the step of \<^verbatim>\<open>F.swap_tiles_on_image\<close> for one record
      \<open>(src_row, src_col, dst_row, dst_col, tile_height, tile_width)\<close>, which copies the
      content of the tile of the image at the source into the new image at the top-left
      offset of the destination.\<close>
  "copy_tile img = (\<lambda>(src_row, src_col, dst_row, dst_col, tile_height, tile_width) new_image.
     (\<lambda>(y, x).
        if dst_row \<le> y \<and> y < dst_row + tile_height \<and> dst_col \<le> x \<and> x < dst_col + tile_width
        then img (src_row + (y - dst_row), src_col + (x - dst_col))
        else new_image (y, x)))"

definition swap_tiles_on_image :: "(int \<times> int \<Rightarrow> 'p) \<Rightarrow> tile list \<Rightarrow> int \<times> int \<Rightarrow> 'p" where
  \<comment> \<open>Modelled from the spec: \<^verbatim>\<open>F.swap_tiles_on_image(img, tiles)\<close>, the apply stage, which
      copies the tile of every record into a copy of the image. An image gives the
      content of the pixel at \<open>(y, x)\<close>.\<close>
  "swap_tiles_on_image img tiles = fold (copy_tile img) tiles img"

definition curr_old :: "tile \<Rightarrow> tile" where
  \<comment> \<open>the record \<^verbatim>\<open>(curr_x, curr_y, old_x, old_y, shift_x, shift_y)\<close> read with the current
      position as the destination and the old position as the source, in the order
      \<open>(src_row, src_col, dst_row, dst_col, tile_height, tile_width)\<close>\<close>
  "curr_old = (\<lambda>(curr_x, curr_y, old_x, old_y, shift_x, shift_y).
     (old_x, old_y, curr_x, curr_y, shift_x, shift_y))"

definition example_generator :: "nat \<Rightarrow> nat \<Rightarrow> nat" where
  \<comment> \<open>a family of raw outcome sequences, one for each seed, for the examples\<close>
  "example_generator seed k = seed + 7 * k + 1"

definition example_rand2 :: rand_state where
  \<comment> \<open>a state of \<^verbatim>\<open>random\<close> that differs from \<open>example_rand\<close> and draws the same seed\<close>
  "example_rand2 = ((\<lambda>k. 10002 + k), 0)"

chapter \<open>Verification\<close>

section \<open>Properties of the rounding\<close>

lemma blen_bounds: "0 < k \<Longrightarrow> 2 ^ (blen k - 1) \<le> k \<and> k < 2 ^ blen k"
proof (induction k rule: blen.induct)
  case (1 k)
  show ?case
  proof (cases "k div 2 \<le> 0")
    case True
    with 1 have "k = 1" by linarith
    then show ?thesis by (simp add: blen.simps[of 1] blen.simps[of 0])
  next
    case False
    with 1 have ih: "2 ^ (blen (k div 2) - 1) \<le> k div 2 \<and> k div 2 < 2 ^ blen (k div 2)" by simp
    have b: "blen k = Suc (blen (k div 2))" using 1 by (simp add: blen.simps[of k])
    have pos: "0 < blen (k div 2)" using False by (simp add: blen.simps[of "k div 2"])
    then obtain j where j: "blen (k div 2) = Suc j" by (cases "blen (k div 2)") auto
    from ih j have "2 ^ j \<le> k div 2" "k div 2 < 2 ^ Suc j" by simp_all
    then have "2 * 2 ^ j \<le> k" "k < 2 * 2 ^ Suc j" by linarith+
    then show ?thesis using b j by simp
  qed
qed

lemma ilog2_bounds:
  assumes "0 < x"
  shows "2 powi (ilog2 x) \<le> x \<and> x < 2 powi (ilog2 x + 1)"
proof (cases "1 \<le> x")
  case True
  define n where "n = \<lfloor>x\<rfloor>"
  have npos: "0 < n" using True by (simp add: n_def)
  have fl: "of_int n \<le> x" "x < of_int n + 1" unfolding n_def using floor_correct[of x] by simp_all
  from blen_bounds[OF npos] have b: "2 ^ (blen n - 1) \<le> n" "n < 2 ^ blen n" by simp_all
  have bpos: "0 < blen n" using npos by (simp add: blen.simps[of n])
  have e: "ilog2 x = int (blen n - 1)" using True bpos by (simp add: ilog2_def n_def)
  have e1: "ilog2 x + 1 = int (blen n)" using e bpos by simp
  have "(of_int (2 ^ (blen n - 1)) :: rat) \<le> of_int n" using b(1) by (simp only: of_int_le_iff)
  then have "(2::rat) ^ (blen n - 1) \<le> of_int n" by simp
  then have lo: "(2::rat) ^ (blen n - 1) \<le> x" using fl(1) by linarith
  have "n + 1 \<le> 2 ^ blen n" using b(2) by simp
  then have "(of_int (n + 1) :: rat) \<le> of_int (2 ^ blen n)" by (simp only: of_int_le_iff)
  then have "(of_int n :: rat) + 1 \<le> 2 ^ blen n" by simp
  then have hi: "x < (2::rat) ^ blen n" using fl(2) by linarith
  have P1: "(2::rat) powi (ilog2 x) = 2 ^ (blen n - 1)" by (simp only: e power_int_of_nat)
  have P2: "(2::rat) powi (ilog2 x + 1) = 2 ^ blen n" by (simp only: e1 power_int_of_nat)
  show ?thesis using lo hi by (simp only: P1 P2)
next
  case False
  define t where "t = 1 / x"
  have t1: "1 < t" using False assms by (simp add: t_def)
  define c where "c = \<lceil>t\<rceil> - 1"
  have ce: "1 < \<lceil>t\<rceil>" using t1 by (simp add: less_ceiling_iff)
  have cpos: "0 < c" using ce by (simp add: c_def)
  have ct: "of_int c < t" "t \<le> of_int c + 1"
    unfolding c_def using ceiling_correct[of t] by simp_all
  from blen_bounds[OF cpos] have b: "2 ^ (blen c - 1) \<le> c" "c < 2 ^ blen c" by simp_all
  have bpos: "0 < blen c" using cpos by (simp add: blen.simps[of c])
  have e: "ilog2 x = - int (blen c)" using False by (simp add: ilog2_def c_def t_def)
  have "(of_int (2 ^ (blen c - 1)) :: rat) \<le> of_int c" using b(1) by (simp only: of_int_le_iff)
  then have "(2::rat) ^ (blen c - 1) \<le> of_int c" by simp
  then have lo: "(2::rat) ^ (blen c - 1) < t" using ct(1) by linarith
  have "c + 1 \<le> 2 ^ blen c" using b(2) by simp
  then have "(of_int (c + 1) :: rat) \<le> of_int (2 ^ blen c)" by (simp only: of_int_le_iff)
  then have "(of_int c :: rat) + 1 \<le> 2 ^ blen c" by simp
  then have hi: "t \<le> (2::rat) ^ blen c" using ct(2) by linarith
  have x: "x = 1 / t" using assms by (simp add: t_def)
  have A: "2 powi (- int (blen c)) \<le> x"
    unfolding x power_int_minus power_int_of_nat using hi t1
    by (simp add: field_simps)
  have e1: "- int (blen c) + 1 = - int (blen c - 1)" using bpos by simp
  have B: "x < 2 powi (- int (blen c) + 1)"
    unfolding e1 unfolding x power_int_minus power_int_of_nat using lo t1
    by (simp add: field_simps)
  show ?thesis unfolding e using A B by simp
qed

lemma pow2_less_imp: "(2::rat) powi a < 2 powi b \<Longrightarrow> a < b"
proof (rule ccontr)
  assume lt: "(2::rat) powi a < 2 powi b" and "\<not> a < b"
  then have "b \<le> a" by simp
  then have "(2::rat) powi b \<le> 2 powi a" by (intro power_int_increasing) simp_all
  with lt show False by simp
qed

lemma ilog2_unique:
  assumes "0 < x" "2 powi e \<le> x" "x < 2 powi (e + 1)"
  shows "ilog2 x = e"
proof -
  from ilog2_bounds[OF assms(1)]
  have b: "2 powi (ilog2 x) \<le> x" "x < 2 powi (ilog2 x + 1)" by simp_all
  have "(2::rat) powi (ilog2 x) < 2 powi (e + 1)" using b(1) assms(3) by linarith
  then have 1: "ilog2 x < e + 1" by (rule pow2_less_imp)
  have "(2::rat) powi e < 2 powi (ilog2 x + 1)" using b(2) assms(2) by linarith
  then have 2: "e < ilog2 x + 1" by (rule pow2_less_imp)
  from 1 2 show ?thesis by simp
qed

lemma ilog2_mono:
  assumes "0 < x" "x \<le> y"
  shows "ilog2 x \<le> ilog2 y"
proof -
  have y: "0 < y" using assms by simp
  from ilog2_bounds[OF assms(1)] ilog2_bounds[OF y]
  have "(2::rat) powi (ilog2 x) < 2 powi (ilog2 y + 1)" using assms(2) by linarith
  then have "ilog2 x < ilog2 y + 1" by (rule pow2_less_imp)
  then show ?thesis by simp
qed

lemma rhe_of_int: "round_half_even (of_int k) = k"
  by (simp add: round_half_even_def)

lemma rhe_cases: "round_half_even x = \<lfloor>x\<rfloor> \<or> round_half_even x = \<lfloor>x\<rfloor> + 1"
  by (simp add: round_half_even_def Let_def)

lemma rhe_err: "\<bar>of_int (round_half_even x) - x\<bar> \<le> 1 / 2"
  using floor_correct[of x] by (auto simp: round_half_even_def Let_def)

lemma rhe_mono:
  assumes "x \<le> y"
  shows "round_half_even x \<le> round_half_even y"
proof (cases "\<lfloor>x\<rfloor> = \<lfloor>y\<rfloor>")
  case True
  then show ?thesis using assms by (auto simp: round_half_even_def Let_def)
next
  case False
  then have "\<lfloor>x\<rfloor> < \<lfloor>y\<rfloor>" using floor_mono[OF assms] by simp
  then show ?thesis using rhe_cases[of x] rhe_cases[of y] by linarith
qed

lemma ulp_pos: "0 < ulp p x"
  by (simp add: ulp_def)

lemma ulp_eq:
  assumes "0 < p"
  shows "ulp p x = 2 powi (ilog2 x) / 2 ^ (p - 1)"
proof -
  have e: "ilog2 x - (int p - 1) = ilog2 x - int (p - 1)" using assms by simp
  have "ulp p x = 2 powi (ilog2 x - int (p - 1))" unfolding ulp_def by (simp only: e)
  also have "\<dots> = 2 powi (ilog2 x) / 2 powi (int (p - 1))" by (rule power_int_diff) simp
  finally show ?thesis by (simp only: power_int_of_nat)
qed

lemma two_pow_pred: "0 < p \<Longrightarrow> (2::rat) * 2 ^ (p - 1) = 2 ^ p"
  by (cases p) simp_all

lemma scaled_bounds:
  assumes "0 < x" "0 < p"
  shows "2 ^ (p - 1) \<le> x / ulp p x" and "x / ulp p x < 2 ^ p"
proof -
  define E where "E = (2::rat) powi (ilog2 x)"
  have Epos: "0 < E" by (simp add: E_def)
  have "2 powi (ilog2 x + 1) = E * 2" by (simp add: E_def power_int_add_1)
  with ilog2_bounds[OF assms(1)] have b: "E \<le> x" "x < E * 2" by (simp_all add: E_def)
  have q: "1 \<le> x / E" "x / E < 2" using b Epos by (simp_all add: field_simps)
  have s: "x / ulp p x = (x / E) * 2 ^ (p - 1)" by (simp add: ulp_eq[OF assms(2)] E_def)
  have "1 * 2 ^ (p - 1) \<le> (x / E) * (2::rat) ^ (p - 1)"
    using q(1) by (intro mult_right_mono) simp_all
  then show "2 ^ (p - 1) \<le> x / ulp p x" by (simp add: s)
  have "(x / E) * (2::rat) ^ (p - 1) < 2 * 2 ^ (p - 1)"
    using q(2) by (intro mult_strict_right_mono) simp_all
  then show "x / ulp p x < 2 ^ p" using two_pow_pred[OF assms(2)] by (simp add: s)
qed

lemma rhe_scaled_bounds:
  assumes "0 < x" "0 < p"
  shows "2 ^ (p - 1) \<le> round_half_even (x / ulp p x)" and "round_half_even (x / ulp p x) \<le> 2 ^ p"
proof -
  have "(of_int (2 ^ (p - 1)) :: rat) \<le> x / ulp p x" using scaled_bounds(1)[OF assms] by simp
  from rhe_mono[OF this] show "2 ^ (p - 1) \<le> round_half_even (x / ulp p x)"
    by (simp only: rhe_of_int)
  have "x / ulp p x \<le> (of_int (2 ^ p) :: rat)" using scaled_bounds(2)[OF assms] by simp
  from rhe_mono[OF this] show "round_half_even (x / ulp p x) \<le> 2 ^ p"
    by (simp only: rhe_of_int)
qed

lemma fl_pos_bounds:
  assumes "0 < x" "0 < p"
  shows "2 powi (ilog2 x) \<le> fl_pos p x" and "fl_pos p x \<le> 2 powi (ilog2 x + 1)"
proof -
  define E where "E = (2::rat) powi (ilog2 x)"
  define r where "r = round_half_even (x / ulp p x)"
  have u: "ulp p x = E / 2 ^ (p - 1)" by (simp add: ulp_eq[OF assms(2)] E_def)
  have E1: "2 powi (ilog2 x + 1) = E * 2" by (simp add: E_def power_int_add_1)
  have Epos: "0 < E" by (simp add: E_def)
  have f: "fl_pos p x = of_int r * E / 2 ^ (p - 1)" by (simp add: fl_pos_def r_def u)
  from rhe_scaled_bounds[OF assms] have "2 ^ (p - 1) \<le> r" "r \<le> 2 ^ p" by (simp_all add: r_def)
  then have "(of_int (2 ^ (p - 1)) :: rat) \<le> of_int r" "(of_int r :: rat) \<le> of_int (2 ^ p)"
    by (simp_all only: of_int_le_iff)
  then have rb: "(2::rat) ^ (p - 1) \<le> of_int r" "(of_int r :: rat) \<le> 2 * 2 ^ (p - 1)"
    using two_pow_pred[OF assms(2)] by simp_all
  have "2 ^ (p - 1) * E \<le> of_int r * E" using rb(1) Epos by (intro mult_right_mono) simp_all
  then show "2 powi (ilog2 x) \<le> fl_pos p x" unfolding f E_def[symmetric]
    by (simp add: field_simps)
  have "of_int r * E \<le> (2 * 2 ^ (p - 1)) * E" using rb(2) Epos by (intro mult_right_mono) simp_all
  then show "fl_pos p x \<le> 2 powi (ilog2 x + 1)" unfolding f E1
    by (simp add: field_simps)
qed

lemma fl_pos_mono:
  assumes "0 < x" "x \<le> y" "0 < p"
  shows "fl_pos p x \<le> fl_pos p y"
proof (cases "ilog2 x = ilog2 y")
  case True
  then have u: "ulp p x = ulp p y" by (simp add: ulp_def)
  have "x / ulp p y \<le> y / ulp p y" using assms(2) ulp_pos[of p y] by (simp add: divide_right_mono)
  from rhe_mono[OF this] have "(of_int (round_half_even (x / ulp p y)) :: rat) \<le> of_int (round_half_even (y / ulp p y))"
    by simp
  then show ?thesis unfolding fl_pos_def u using ulp_pos[of p y] by (intro mult_right_mono) simp_all
next
  case False
  have y: "0 < y" using assms by simp
  from False ilog2_mono[OF assms(1,2)] have "ilog2 x + 1 \<le> ilog2 y" by simp
  then have "(2::rat) powi (ilog2 x + 1) \<le> 2 powi (ilog2 y)" by (intro power_int_increasing) simp_all
  with fl_pos_bounds(2)[OF assms(1,3)] fl_pos_bounds(1)[OF y assms(3)] show ?thesis by linarith
qed

lemma fl_pos_err:
  assumes "0 < x" "0 < p"
  shows "\<bar>fl_pos p x - x\<bar> \<le> ulp p x / 2"
proof -
  have up: "0 < ulp p x" by (rule ulp_pos)
  have "fl_pos p x - x = (of_int (round_half_even (x / ulp p x)) - x / ulp p x) * ulp p x"
    using up by (simp add: fl_pos_def field_simps)
  then have "\<bar>fl_pos p x - x\<bar> = \<bar>of_int (round_half_even (x / ulp p x)) - x / ulp p x\<bar> * ulp p x"
    using up by (simp add: abs_mult)
  also have "\<dots> \<le> (1 / 2) * ulp p x" using rhe_err[of "x / ulp p x"] up by (intro mult_right_mono) simp_all
  finally show ?thesis by simp
qed

lemma ulp_le:
  assumes "0 < x" "0 < p"
  shows "ulp p x / 2 \<le> x / 2 ^ p"
proof -
  have "ulp p x / 2 = 2 powi (ilog2 x) / (2 * 2 ^ (p - 1))" by (simp add: ulp_eq[OF assms(2)])
  also have "\<dots> = 2 powi (ilog2 x) / 2 ^ p" by (simp only: two_pow_pred[OF assms(2)])
  also have "\<dots> \<le> x / 2 ^ p" using ilog2_bounds[OF assms(1)] by (intro divide_right_mono) simp_all
  finally show ?thesis .
qed

lemma fl_pos_exact:
  assumes m: "0 < m" "m < 2 ^ p" and p: "0 < p" and x: "x = of_int m * 2 powi j"
  shows "fl_pos p x = x"
proof -
  have xpos: "0 < x" using m(1) by (simp add: x)
  define e where "e = ilog2 x"
  have "(of_int m :: rat) < of_int (2 ^ p)" using m(2) by (simp only: of_int_less_iff)
  then have "(of_int m :: rat) * 2 powi j < 2 ^ p * 2 powi j"
    by (intro mult_strict_right_mono) simp_all
  also have "\<dots> = 2 powi (int p + j)" by (simp add: power_int_add)
  finally have "x < 2 powi (int p + j)" by (simp add: x)
  moreover have "2 powi e \<le> x" using ilog2_bounds[OF xpos] by (simp add: e_def)
  ultimately have "(2::rat) powi e < 2 powi (int p + j)" by linarith
  then have "e < int p + j" by (rule pow2_less_imp)
  then have k0: "0 \<le> j - (e - (int p - 1))" by simp
  define k where "k = nat (j - (e - (int p - 1)))"
  have jk: "j = (e - (int p - 1)) + int k" using k0 by (simp add: k_def)
  define U where "U = (2::rat) powi (e - (int p - 1))"
  have u: "ulp p x = U" by (simp add: ulp_def e_def U_def)
  have "(2::rat) powi j = U * 2 powi (int k)"
    unfolding U_def by (subst jk) (simp add: power_int_add)
  then have xs0: "x = of_int (m * 2 ^ k) * U" by (simp add: x mult_ac)
  have xs: "x = of_int (m * 2 ^ k) * ulp p x" by (subst u) (rule xs0)
  have "x / ulp p x = of_int (m * 2 ^ k)" using ulp_pos[of p x] by (subst xs) simp
  then have "round_half_even (x / ulp p x) = m * 2 ^ k" by (simp only: rhe_of_int)
  then have "fl_pos p x = of_int (m * 2 ^ k) * ulp p x" by (simp add: fl_pos_def)
  with xs show ?thesis by simp
qed

lemma fl_pos_idem:
  assumes "0 < x" "0 < p"
  shows "fl_pos p (fl_pos p x) = fl_pos p x"
proof -
  define r where "r = round_half_even (x / ulp p x)"
  from rhe_scaled_bounds[OF assms] have rb: "2 ^ (p - 1) \<le> r" "r \<le> 2 ^ p" by (simp_all add: r_def)
  have "(0::int) < 2 ^ (p - 1)" by simp
  with rb(1) have rpos: "0 < r" by linarith
  have f: "fl_pos p x = of_int r * 2 powi (ilog2 x - (int p - 1))" by (simp add: fl_pos_def r_def ulp_def)
  show ?thesis
  proof (cases "r = 2 ^ p")
    case True
    have "fl_pos p x = 2 powi (int p) * 2 powi (ilog2 x - (int p - 1))" by (simp add: f True)
    also have "\<dots> = 2 powi (int p + (ilog2 x - (int p - 1)))" by (subst power_int_add) simp_all
    finally have "fl_pos p x = of_int 1 * 2 powi (int p + (ilog2 x - (int p - 1)))" by simp
    moreover have "(1::int) < 2 ^ p" using assms(2) one_less_power[of "2::int" p] by simp
    ultimately show ?thesis using assms(2) by (intro fl_pos_exact[where m = 1]) simp_all
  next
    case False
    with rb(2) have "r < 2 ^ p" by simp
    then show ?thesis using rpos assms(2) f by (intro fl_pos_exact[where m = r]) simp_all
  qed
qed

lemma fl_of_int:
  assumes "\<bar>k\<bar> < 2 ^ p"
  shows "fl p (of_int k) = of_int k"
proof -
  have p: "k \<noteq> 0 \<Longrightarrow> 0 < p" using assms by (cases p) auto
  consider "k = 0" | "0 < k" | "k < 0" by linarith
  then show ?thesis
  proof cases
    case 1
    then show ?thesis by (simp add: fl_def)
  next
    case 2
    then have "fl_pos p (of_int k) = of_int k" using assms p
      by (intro fl_pos_exact[where m = k and j = 0]) simp_all
    with 2 show ?thesis by (simp add: fl_def)
  next
    case 3
    then have "fl_pos p (of_int (- k)) = of_int (- k)" using assms p
      by (intro fl_pos_exact[where m = "- k" and j = 0]) simp_all
    with 3 show ?thesis by (simp add: fl_def)
  qed
qed

lemma fl_nonneg: "0 \<le> x \<Longrightarrow> 0 < p \<Longrightarrow> 0 \<le> fl p x"
  using fl_pos_bounds(1)[of x p] by (cases "x = 0") (auto simp: fl_def intro: order_trans[rotated])

lemma fl_mono:
  assumes "0 \<le> x" "x \<le> y" "0 < p"
  shows "fl p x \<le> fl p y"
proof (cases "x = 0")
  case True
  then show ?thesis using fl_nonneg[of y p] assms by (simp add: fl_def)
next
  case False
  then have "0 < x" "0 < y" using assms by simp_all
  then show ?thesis using fl_pos_mono[of x y p] assms by (simp add: fl_def)
qed

lemma fl_err:
  assumes "0 \<le> x" "0 < p"
  shows "\<bar>fl p x - x\<bar> \<le> x / 2 ^ p"
proof (cases "x = 0")
  case True
  then show ?thesis by (simp add: fl_def)
next
  case False
  then have x: "0 < x" using assms by simp
  from fl_pos_err[OF x assms(2)] ulp_le[OF x assms(2)]
  have "\<bar>fl_pos p x - x\<bar> \<le> x / 2 ^ p" by (rule order_trans)
  then show ?thesis using x by (simp add: fl_def)
qed

lemma fl_idem:
  assumes "0 \<le> x" "0 < p"
  shows "fl p (fl p x) = fl p x"
proof (cases "x = 0")
  case True
  then show ?thesis by (simp add: fl_def)
next
  case False
  then have x: "0 < x" using assms by simp
  have "0 < fl_pos p x" using fl_pos_bounds(1)[OF x assms(2)]
    by (rule less_le_trans[rotated]) simp
  then show ?thesis using x fl_pos_idem[OF x assms(2)] by (simp add: fl_def)
qed

lemma fl_exact:
  assumes "0 < m" "m < 2 ^ p"
  shows "fl p (of_int m * 2 powi j) = of_int m * 2 powi j"
proof -
  have p: "0 < p" using assms by (cases p) auto
  have "fl_pos p (of_int m * 2 powi j) = of_int m * 2 powi j"
    using assms p by (intro fl_pos_exact[where m = m and j = j]) simp_all
  then show ?thesis using assms(1) by (simp add: fl_def)
qed

lemma float_of_int_exact: "\<bar>k\<bar> < 2 ^ 53 \<Longrightarrow> float_of_int k = of_int k"
  unfolding float_of_int_def fl64_def by (rule fl_of_int)

section \<open>PadIfNeededTorch.update\_params\<close>

lemma half_pad_exact:
  assumes "0 < d" "d < 2 ^ 53"
  shows "half_pad d = d div 2"
proof -
  have a: "float_of_int d = of_int d" using assms by (intro float_of_int_exact) simp
  have b: "fl64 (of_int d / 2) = of_int d / 2"
  proof -
    have e: "of_int d * 2 powi (- 1) = (of_int d / 2 :: rat)" by (simp add: field_simps)
    have "fl 53 (of_int d * 2 powi (- 1)) = of_int d * 2 powi (- 1)"
      using assms by (intro fl_exact)
    then show ?thesis unfolding e fl64_def .
  qed
  have c: "\<lfloor>(of_int d :: rat) / 2\<rfloor> = d div 2"
    using floor_divide_of_int_eq[of d 2, where ?'a = rat] by simp
  show ?thesis unfolding half_pad_def int_of_float_def a b c using assms(1) by simp
qed

lemma pad_axis:
  fixes need got :: int
  assumes "need - got < 2 ^ 53"
  defines "pr \<equiv> (if got < need then (let t = half_pad (need - got) in (t, need - got - t)) else (0, 0))"
  shows "0 \<le> fst pr" and "0 \<le> snd pr" and "fst pr + snd pr = max 0 (need - got)"
    and "got < need \<longrightarrow> fst pr = (need - got) div 2"
    and "snd pr - fst pr = 0 \<or> snd pr - fst pr = 1"
    and "need \<le> got \<longrightarrow> fst pr = 0 \<and> snd pr = 0"
proof -
  have h: "got < need \<Longrightarrow> half_pad (need - got) = (need - got) div 2"
    using assms(1) by (intro half_pad_exact) simp_all
  show "0 \<le> fst pr" using h by (simp add: pr_def Let_def)
  show "0 \<le> snd pr" using h by (simp add: pr_def Let_def) linarith
  show "fst pr + snd pr = max 0 (need - got)" by (simp add: pr_def Let_def)
  show "got < need \<longrightarrow> fst pr = (need - got) div 2" using h by (simp add: pr_def Let_def)
  show "snd pr - fst pr = 0 \<or> snd pr - fst pr = 1" using h by (simp add: pr_def Let_def) linarith
  show "need \<le> got \<longrightarrow> fst pr = 0 \<and> snd pr = 0" by (simp add: pr_def)
qed

text \<open>
  C10. For sizes whose deficit a float holds exactly (below \<open>2 ^ 53\<close>), the four paddings
  of \<open>update_params\<close> are non-negative, the paddings of an axis add up to the deficit
  \<open>max 0 (min_height - rows)\<close> (resp. \<open>max 0 (min_width - cols)\<close>), the first padding of
  an axis that is padded is the floor of half the deficit, so that the second exceeds it
  by 0 or 1, and an axis that is already large enough gets no padding.
\<close>

theorem update_params_padding:
  assumes "min_height self - rows < 2 ^ 53" and "min_width self - cols < 2 ^ 53"
  defines "p \<equiv> update_params self rows cols"
  shows "0 \<le> pad_top p \<and> 0 \<le> pad_bottom p \<and> 0 \<le> pad_left p \<and> 0 \<le> pad_right p
    \<and> pad_top p + pad_bottom p = max 0 (min_height self - rows)
    \<and> pad_left p + pad_right p = max 0 (min_width self - cols)
    \<and> (rows < min_height self \<longrightarrow> pad_top p = (min_height self - rows) div 2)
    \<and> (cols < min_width self \<longrightarrow> pad_left p = (min_width self - cols) div 2)
    \<and> (pad_bottom p - pad_top p = 0 \<or> pad_bottom p - pad_top p = 1)
    \<and> (pad_right p - pad_left p = 0 \<or> pad_right p - pad_left p = 1)
    \<and> (min_height self \<le> rows \<longrightarrow> pad_top p = 0 \<and> pad_bottom p = 0)
    \<and> (min_width self \<le> cols \<longrightarrow> pad_left p = 0 \<and> pad_right p = 0)"
proof -
  define v where "v = (if rows < min_height self
     then (let t = half_pad (min_height self - rows) in (t, min_height self - rows - t))
     else (0, 0))"
  define h where "h = (if cols < min_width self
     then (let t = half_pad (min_width self - cols) in (t, min_width self - cols - t))
     else (0, 0))"
  have p: "pad_top p = fst v" "pad_bottom p = snd v" "pad_left p = fst h" "pad_right p = snd h"
    by (simp_all add: p_def update_params_def v_def h_def Let_def split: prod.splits)
  note V = pad_axis[OF assms(1), folded v_def]
  note H = pad_axis[OF assms(2), folded h_def]
  show ?thesis unfolding p using V H by blast
qed

theorem update_params_padding_witness:
  "pad_top (update_params \<lparr>min_height = 1024, min_width = 1024\<rparr> 1001 2000) = 11
   \<and> pad_bottom (update_params \<lparr>min_height = 1024, min_width = 1024\<rparr> 1001 2000) = 12
   \<and> pad_left (update_params \<lparr>min_height = 1024, min_width = 1024\<rparr> 1001 2000) = 0
   \<and> pad_right (update_params \<lparr>min_height = 1024, min_width = 1024\<rparr> 1001 2000) = 0"
  using update_params_padding[of "\<lparr>min_height = 1024, min_width = 1024\<rparr>" 1001 2000]
  by simp

section \<open>CropNonEmptyMaskIfExistsTorch.get\_params\_dependent\_on\_targets\<close>

lemma randint_range:
  assumes "a \<le> b"
  shows "\<exists>v g'. randint a b g = Inr (v, g') \<and> a \<le> v \<and> v \<le> b"
proof -
  have "0 < nat (b - a + 1)" using assms by simp
  then have "fst g (snd g) mod nat (b - a + 1) < nat (b - a + 1)" by (rule mod_less_divisor)
  then have "a + int (fst g (snd g) mod nat (b - a + 1)) \<le> b" by linarith
  then show ?thesis using assms by (simp add: randint_def randbelow_def)
qed

lemma randint_empty: "b < a \<Longrightarrow> randint a b g = Inl (ValueError EmptyRange)"
  by (simp add: randint_def)

lemma choice_member:
  assumes "xs \<noteq> []"
  shows "\<exists>v g'. choice xs g = Inr (v, g') \<and> v \<in> set xs"
proof -
  have "fst g (snd g) mod length xs < length xs" using assms by simp
  then show ?thesis using assms by (simp add: choice_def randbelow_def)
qed

lemma mask_shape_filtered: "mask_shape (filtered_mask dt self msk) = mask_shape msk"
proof -
  have z: "mask_shape (zero_value dt v m) = mask_shape m" for v and m :: "'a mask"
    by (cases m) simp_all
  have f: "mask_shape (fold (zero_value dt) vs m) = mask_shape m" for vs and m :: "'a mask"
    by (induction vs arbitrary: m) (simp_all add: z)
  have k: "mask_shape (keep_channels ign m) = mask_shape m" for ign and m :: "'a mask"
    by (cases m) (simp_all add: Let_def)
  show ?thesis by (simp add: filtered_mask_def Let_def f k split: option.splits)
qed

lemma non_zero_yx_in_range:
  assumes "(y, x) \<in> set (non_zero_yx dt m)"
  shows "y < fst (mask_shape m) \<and> x < snd (mask_shape m)"
  using assms by (cases m) auto

lemma non_zero_yx_Mask2:
  "(y, x) \<in> set (non_zero_yx dt (Mask2 h w f)) \<longleftrightarrow> y < h \<and> x < w \<and> f y x \<noteq> 0"
  by auto

lemma non_zero_yx_Mask3:
  "(y, x) \<in> set (non_zero_yx dt (Mask3 c h w f))
    \<longleftrightarrow> y < h \<and> x < w \<and> \<not> sum0_is_zero dt (map (\<lambda>k. f k y x) [0..<c])"
  by auto

lemma sum_list_map_concat:
  fixes g :: "'a \<Rightarrow> 'b::comm_monoid_add"
  shows "sum_list (map g (concat xss)) = sum_list (map (\<lambda>xs. sum_list (map g xs)) xss)"
  by (induction xss) simp_all

lemma sum_list_map_upt:
  fixes g :: "nat \<Rightarrow> 'b::comm_monoid_add"
  shows "sum_list (map g [0..<n]) = sum g {..<n}"
  by (simp add: interv_sum_list_conv_sum_set_nat atLeast0LessThan)

lemma sum_list_elements_Mask2:
  fixes g :: "'a \<Rightarrow> 'b::comm_monoid_add"
  shows "sum_list (map g (elements (Mask2 h w f))) = (\<Sum>y<h. \<Sum>x<w. g (f y x))"
  by (simp add: sum_list_map_concat comp_def sum_list_map_upt)

lemma sum_list_elements_Mask3:
  fixes g :: "'a \<Rightarrow> 'b::comm_monoid_add"
  shows "sum_list (map g (elements (Mask3 c h w f)))
    = (\<Sum>y<h. \<Sum>x<w. sum_list (map g (map (\<lambda>k. f k y x) [0..<c])))"
proof -
  have "sum_list (map g (elements (Mask3 c h w f))) = (\<Sum>k<c. \<Sum>y<h. \<Sum>x<w. g (f k y x))"
    by (simp add: sum_list_map_concat comp_def sum_list_map_upt)
  also have "\<dots> = (\<Sum>y<h. \<Sum>k<c. \<Sum>x<w. g (f k y x))" by (rule sum.swap)
  also have "\<dots> = (\<Sum>y<h. \<Sum>x<w. \<Sum>k<c. g (f k y x))"
    by (rule sum.cong[OF refl]) (rule sum.swap)
  finally show ?thesis
    by (simp add: comp_def sum_list_map_upt)
qed

lemma int64_sum_nonzero:
  assumes "\<not> mask_sum_is_zero int64_ops msk"
  shows "non_zero_yx int64_ops msk \<noteq> []"
proof (cases msk)
  case (Mask2 h w f)
  show ?thesis
  proof
    assume "non_zero_yx int64_ops msk = []"
    then have "set (non_zero_yx int64_ops (Mask2 h w f)) = {}" by (simp add: Mask2)
    then have z: "f y x = 0" if "y < h" "x < w" for y x
      using that non_zero_yx_Mask2[of y x int64_ops h w f] by simp
    have "sum_list (map id (elements (Mask2 h w f))) = 0"
      unfolding sum_list_elements_Mask2 by (simp add: z)
    with assms show False by (simp add: mask_sum_is_zero_def int64_ops_def Mask2)
  qed
next
  case (Mask3 c h w f)
  show ?thesis
  proof
    assume "non_zero_yx int64_ops msk = []"
    then have "set (non_zero_yx int64_ops (Mask3 c h w f)) = {}" by (simp add: Mask3)
    then have z: "sum_list (map id (map (\<lambda>k. f k y x) [0..<c])) = 0" if "y < h" "x < w" for y x
      using that non_zero_yx_Mask3[of y x int64_ops c h w f] by (simp add: int64_ops_def)
    have "sum_list (map id (elements (Mask3 c h w f))) = 0"
      unfolding sum_list_elements_Mask3 by (intro sum.neutral ballI z) simp_all
    with assms show False by (simp add: mask_sum_is_zero_def int64_ops_def Mask3)
  qed
qed

lemma uint8_sum_nonzero:
  assumes "\<not> mask_sum_is_zero uint8_ops msk"
  shows "non_zero_yx uint8_ops msk \<noteq> []"
proof (cases msk)
  case (Mask2 h w f)
  show ?thesis
  proof
    assume "non_zero_yx uint8_ops msk = []"
    then have "set (non_zero_yx uint8_ops (Mask2 h w f)) = {}" by (simp add: Mask2)
    then have z: "f y x = 0" if "y < h" "x < w" for y x
      using that non_zero_yx_Mask2[of y x uint8_ops h w f] by simp
    have "sum_list (map (ucast :: 8 word \<Rightarrow> 64 word) (elements (Mask2 h w f))) = 0"
      unfolding sum_list_elements_Mask2 by (simp add: z)
    with assms show False by (simp add: mask_sum_is_zero_def uint8_ops_def Mask2)
  qed
next
  case (Mask3 c h w f)
  show ?thesis
  proof
    assume "non_zero_yx uint8_ops msk = []"
    then have "set (non_zero_yx uint8_ops (Mask3 c h w f)) = {}" by (simp add: Mask3)
    then have z: "sum_list (map (ucast :: 8 word \<Rightarrow> 64 word) (map (\<lambda>k. f k y x) [0..<c])) = 0"
      if "y < h" "x < w" for y x
      using that non_zero_yx_Mask3[of y x uint8_ops c h w f] by (simp add: uint8_ops_def comp_def)
    have "sum_list (map (ucast :: 8 word \<Rightarrow> 64 word) (elements (Mask3 c h w f))) = 0"
      unfolding sum_list_elements_Mask3 by (intro sum.neutral ballI z) simp_all
    with assms show False by (simp add: mask_sum_is_zero_def uint8_ops_def Mask3)
  qed
qed

lemma float_sum_nonzero:
  assumes zeros: "\<And>xs. \<forall>x\<in>set xs. x = 0 \<Longrightarrow> add_all xs = 0"
    and sum: "\<not> mask_sum_is_zero (float_ops to_float add_all) (Mask2 h w f)"
  shows "non_zero_yx (float_ops to_float add_all) (Mask2 h w f) \<noteq> []"
proof
  assume "non_zero_yx (float_ops to_float add_all) (Mask2 h w f) = []"
  then have "set (non_zero_yx (float_ops to_float add_all) (Mask2 h w f)) = {}" by simp
  then have z: "f y x = 0" if "y < h" "x < w" for y x
    using that non_zero_yx_Mask2[of y x "float_ops to_float add_all" h w f] by simp
  have "\<forall>v\<in>set (elements (Mask2 h w f)). v = 0" by (auto simp: z)
  from zeros[OF this] sum show False by (simp add: mask_sum_is_zero_def float_ops_def)
qed

lemma uint8_sum_zero_iff:
  assumes "length (elements msk) < 2 ^ 56"
  shows "mask_sum_is_zero uint8_ops msk \<longleftrightarrow> \<not> has_nonzero_pixel msk"
proof -
  have b: "(\<Sum>x\<leftarrow>xs. unat x) \<le> 255 * length xs" for xs :: "8 word list"
  proof (induction xs)
    case Nil
    show ?case by simp
  next
    case (Cons a xs)
    have "unat a < 2 ^ 8" using unsigned_less[of a] by simp
    with Cons show ?case by simp
  qed
  have u: "(\<Sum>x\<leftarrow>xs. (ucast x :: 64 word)) = of_nat (\<Sum>x\<leftarrow>xs. unat x)" for xs :: "8 word list"
    by (induction xs) simp_all
  define xs where "xs = elements msk"
  have "(\<Sum>x\<leftarrow>xs. unat x) < 2 ^ 64" using b[of xs] assms by (simp add: xs_def)
  moreover have "(of_nat S :: 64 word) = 0 \<longleftrightarrow> S = 0" if "S < 2 ^ 64" for S :: nat
    unfolding word_of_nat_eq_0_iff using that by (cases "S = 0") (auto dest: dvd_imp_le)
  ultimately have "(of_nat (\<Sum>x\<leftarrow>xs. unat x) :: 64 word) = 0 \<longleftrightarrow> (\<Sum>x\<leftarrow>xs. unat x) = 0"
    by blast
  then show ?thesis
    by (simp add: mask_sum_is_zero_def uint8_ops_def has_nonzero_pixel_def u xs_def[symmetric]
        list_ex_iff unsigned_eq_0_iff)
qed

lemma clamp_window:
  assumes "0 \<le> dx" "dx \<le> w - 1" "0 \<le> x" "x < mw" "w \<le> mw"
  defines "c \<equiv> clamp (x - dx) 0 (mw - w)"
  shows "0 \<le> c" "c + w \<le> mw" "c \<le> x" "x < c + w"
  using assms by (simp_all add: clamp_def)

text \<open>
  C5 does not hold as stated. The sampler looks for a non-zero pixel only when
  \<^verbatim>\<open>mask.sum() == 0\<close> is false, and the elements of a signed mask can cancel: for the
  int64 mask \<open>[[1, -1, 0]]\<close>, whose pixels \<open>(0, 0)\<close> and \<open>(0, 1)\<close> are not zero, and the crop
  size \<open>(1, 1)\<close>, both allowed by C5, the sum is zero, no pixel is sampled, and the random
  rectangle \<open>x_min = 2, x_max = 3\<close> holds the zero pixel \<open>(0, 2)\<close> only. A crop of the
  width 0, which C5 allows too, raises the \<^verbatim>\<open>ValueError\<close> of \<^verbatim>\<open>random.randint(0, -1)\<close> for a
  mask with a non-zero sum.
\<close>

theorem cnem_signed_mask_counterexample:
  "mask_shape signed_mask = (1, 3)
   \<and> self_height unit_crop = 1 \<and> self_width unit_crop = 1
   \<and> has_nonzero_pixel (filtered_mask int64_ops unit_crop signed_mask)
   \<and> non_zero_yx int64_ops (filtered_mask int64_ops unit_crop signed_mask) = [(0, 0), (0, 1)]
   \<and> mask_sum_is_zero int64_ops (filtered_mask int64_ops unit_crop signed_mask)
   \<and> map_sum id fst (cnem_get_params int64_ops unit_crop signed_mask constant_rand)
       = Inr \<lparr>x_min = 2, x_max = 3, y_min = 0, y_max = 1\<rparr>
   \<and> mask_shape example_mask = (3, 4)
   \<and> self_height flat_crop = 1 \<and> self_width flat_crop = 0
   \<and> has_nonzero_pixel (filtered_mask uint8_ops flat_crop example_mask)
   \<and> non_zero_yx uint8_ops (filtered_mask uint8_ops flat_crop example_mask) = [(0, 0), (1, 2)]
   \<and> cnem_get_params uint8_ops flat_crop example_mask example_rand = Inl (ValueError EmptyRange)"
proof -
  have F: "filtered_mask int64_ops unit_crop signed_mask = signed_mask"
    by (simp add: filtered_mask_def unit_crop_def)
  have G: "filtered_mask uint8_ops flat_crop example_mask = example_mask"
    by (simp add: filtered_mask_def flat_crop_def)
  have u3: "[0..<3] = [0, 1, 2]" by (simp add: upt_rec)
  have u4: "[0..<4] = [0, 1, 2, 3]" by (simp add: upt_rec)
  have e: "elements signed_mask = [1, - 1, 0]" by (simp add: signed_mask_def u3)
  have e8: "elements example_mask = [7, 0, 0, 0, 0, 0, 1, 0, 0, 0, 0, 0]"
    by (simp add: example_mask_def u3 u4)
  have nz: "non_zero_yx int64_ops signed_mask = [(0, 0), (0, 1)]"
    by (simp add: signed_mask_def u3)
  have nz8: "non_zero_yx uint8_ops example_mask = [(0, 0), (1, 2)]"
    by (simp add: example_mask_def u3 u4)
  have s: "mask_sum_is_zero int64_ops signed_mask"
    by (simp add: mask_sum_is_zero_def int64_ops_def e)
  have s8: "\<not> mask_sum_is_zero uint8_ops example_mask"
    by (simp add: mask_sum_is_zero_def uint8_ops_def e8)
  have sh: "mask_shape signed_mask = (1, 3)" by (simp add: signed_mask_def)
  have sh8: "mask_shape example_mask = (3, 4)" by (simp add: example_mask_def)
  have c: "map_sum id fst (cnem_get_params int64_ops unit_crop signed_mask constant_rand)
       = Inr \<lparr>x_min = 2, x_max = 3, y_min = 0, y_max = 1\<rparr>"
    unfolding cnem_get_params_def F Let_def sh
    by (simp add: s unit_crop_def and_then_def randint_def randbelow_def crop_at_def
        constant_rand_def)
  have c8: "cnem_get_params uint8_ops flat_crop example_mask example_rand
      = Inl (ValueError EmptyRange)"
    unfolding cnem_get_params_def G Let_def sh8 nz8
    by (simp add: s8 flat_crop_def and_then_def randint_def randbelow_def choice_def
          example_rand_def)
  show ?thesis
    unfolding F G using c c8 s nz nz8 sh sh8
    by (simp add: has_nonzero_pixel_def e e8 unit_crop_def flat_crop_def)
qed

text \<open>
  C5, amended. Let the mask have the shape \<open>(mh, mw)\<close>, let the crop size be positive with
  \<open>self_height \<le> mh\<close> and \<open>self_width \<le> mw\<close>, and let the mask, once the ignored values
  and channels are removed, have a sum that torch finds different from zero and at least
  one non-zero pixel, that is, one that \<^verbatim>\<open>torch.nonzero\<close> finds. Then \<open>cnem_get_params\<close> returns a rectangle with
  \<open>x_max = x_min + self_width\<close> and \<open>y_max = y_min + self_height\<close> that contains the
  non-zero pixel \<open>(y, x)\<close> drawn by \<open>choice\<close> and lies inside the image. This holds for
  every dtype of the mask. For an integer mask a pixel that \<^verbatim>\<open>torch.nonzero\<close> finds exists
  as soon as the sum is not zero (\<open>uint8_sum_nonzero\<close>, \<open>int64_sum_nonzero\<close>), and so it
  does for a float mask of rank 2 (\<open>float_sum_nonzero\<close>); for a uint8 mask of fewer than
  \<open>2 ^ 56\<close> elements the sum is not zero as soon as one pixel is not
  (\<open>uint8_sum_zero_iff\<close>).
\<close>

theorem cnem_crop_contains_sampled_pixel:
  assumes shape: "mask_shape msk = (mh, mw)"
    and h: "0 < self_height self" "self_height self \<le> int mh"
    and w: "0 < self_width self" "self_width self \<le> int mw"
    and sum: "\<not> mask_sum_is_zero dt (filtered_mask dt self msk)"
    and nz: "non_zero_yx dt (filtered_mask dt self msk) \<noteq> []"
  shows "\<exists>y x g1 r g'.
      choice (non_zero_yx dt (filtered_mask dt self msk)) g = Inr ((y, x), g1)
    \<and> (y, x) \<in> set (non_zero_yx dt (filtered_mask dt self msk))
    \<and> cnem_get_params dt self msk g = Inr (r, g')
    \<and> x_max r = x_min r + self_width self \<and> y_max r = y_min r + self_height self
    \<and> x_min r \<le> int x \<and> int x < x_max r \<and> y_min r \<le> int y \<and> int y < y_max r
    \<and> 0 \<le> x_min r \<and> x_max r \<le> int mw \<and> 0 \<le> y_min r \<and> y_max r \<le> int mh"
proof -
  define M where "M = filtered_mask dt self msk"
  from choice_member[OF nz, of g] obtain y x g1
    where ch: "choice (non_zero_yx dt M) g = Inr ((y, x), g1)"
      and mem: "(y, x) \<in> set (non_zero_yx dt M)"
    unfolding M_def by auto
  have "mask_shape M = (mh, mw)" by (simp add: M_def mask_shape_filtered shape)
  with non_zero_yx_in_range[OF mem] have yx: "y < mh" "x < mw" by simp_all
  from randint_range[of 0 "self_width self - 1" g1] w(1) obtain dx g2
    where rx: "randint 0 (self_width self - 1) g1 = Inr (dx, g2)"
      and dx: "0 \<le> dx" "dx \<le> self_width self - 1" by auto
  from randint_range[of 0 "self_height self - 1" g2] h(1) obtain dy g3
    where ry: "randint 0 (self_height self - 1) g2 = Inr (dy, g3)"
      and dy: "0 \<le> dy" "dy \<le> self_height self - 1" by auto
  define cx where "cx = clamp (int x - dx) 0 (int mw - self_width self)"
  define cy where "cy = clamp (int y - dy) 0 (int mh - self_height self)"
  have res: "cnem_get_params dt self msk g = Inr (crop_at self cx cy, g3)"
    using sum h(2) w(2) ch rx ry
    by (simp add: cnem_get_params_def shape M_def[symmetric] and_then_def cx_def cy_def)
  have X: "0 \<le> cx" "cx + self_width self \<le> int mw" "cx \<le> int x" "int x < cx + self_width self"
    unfolding cx_def using dx yx(2) w(2) by (simp_all add: clamp_def)
  have Y: "0 \<le> cy" "cy + self_height self \<le> int mh" "cy \<le> int y" "int y < cy + self_height self"
    unfolding cy_def using dy yx(1) h(2) by (simp_all add: clamp_def)
  show ?thesis
    unfolding M_def[symmetric]
    using ch mem res X Y by (simp add: crop_at_def)
qed

theorem cnem_crop_contains_sampled_pixel_witness:
  "\<exists>y x g1 r g'.
      choice (non_zero_yx uint8_ops (filtered_mask uint8_ops example_crop example_mask))
        example_rand = Inr ((y, x), g1)
    \<and> (y, x) \<in> set (non_zero_yx uint8_ops (filtered_mask uint8_ops example_crop example_mask))
    \<and> cnem_get_params uint8_ops example_crop example_mask example_rand = Inr (r, g')
    \<and> x_max r = x_min r + self_width example_crop
    \<and> y_max r = y_min r + self_height example_crop
    \<and> x_min r \<le> int x \<and> int x < x_max r \<and> y_min r \<le> int y \<and> int y < y_max r
    \<and> 0 \<le> x_min r \<and> x_max r \<le> int 4 \<and> 0 \<le> y_min r \<and> y_max r \<le> int 3"
proof -
  have s: "mask_shape example_mask = (3, 4)" by (simp add: example_mask_def)
  have u3: "[0..<3] = [0, 1, 2]" by (simp add: upt_rec)
  have u4: "[0..<4] = [0, 1, 2, 3]" by (simp add: upt_rec)
  have F: "filtered_mask uint8_ops example_crop example_mask
      = Mask2 3 4 (\<lambda>y x. if y = 1 \<and> x = 2 then 1 else 0)"
    by (auto simp: filtered_mask_def example_crop_def example_mask_def uint8_ops_def
        intro!: ext)
  have sum: "\<not> mask_sum_is_zero uint8_ops (filtered_mask uint8_ops example_crop example_mask)"
    unfolding F by (simp add: mask_sum_is_zero_def uint8_ops_def u3 u4)
  have nz: "non_zero_yx uint8_ops (filtered_mask uint8_ops example_crop example_mask) \<noteq> []"
    by (rule uint8_sum_nonzero[OF sum])
  show ?thesis
    by (rule cnem_crop_contains_sampled_pixel[OF s _ _ _ _ sum nz])
       (simp_all add: example_crop_def)
qed

section \<open>on\_float\_image\<close>

lemma fl32_one: "fl32 1 = 1"
  using fl_of_int[of 1 24] by (simp add: fl32_def)

lemma normalised_range_nat:
  assumes "k < 256"
  shows "0 \<le> fl32 (fl32 (of_nat k) / 255) \<and> fl32 (fl32 (of_nat k) / 255) \<le> 1"
proof -
  have "\<bar>int k\<bar> < 2 ^ 24" using assms by simp
  then have "fl 24 (of_int (int k)) = of_int (int k)" by (rule fl_of_int)
  then have e: "fl32 (of_nat k) = of_nat k" by (simp add: fl32_def)
  have q: "0 \<le> (of_nat k :: rat) / 255" "(of_nat k :: rat) / 255 \<le> 1"
    using assms by simp_all
  have "fl 24 ((of_nat k :: rat) / 255) \<le> fl 24 1" using q by (intro fl_mono) simp_all
  moreover have "0 \<le> fl 24 ((of_nat k :: rat) / 255)" using q(1) by (intro fl_nonneg) simp_all
  ultimately show ?thesis using fl32_one unfolding e by (simp add: fl32_def)
qed

lemma normalised_range:
  fixes w :: "8 word"
  shows "0 \<le> fl32 (fl32 (of_nat (unat w)) / 255) \<and> fl32 (fl32 (of_nat (unat w)) / 255) \<le> 1"
proof -
  have "unat w < 2 ^ LENGTH(8)" by (rule unsigned_less)
  then have "unat w < 256" by simp
  then show ?thesis by (rule normalised_range_nat)
qed

lemma rescale_F32:
  "to_uint8 (clamp_t (round_t (mul_scalar (F32 rs) 255)) 0 255) = U8 (map rescale_pixel rs)"
proof -
  have "int_of_float (min (max (of_int k) (of_int 0)) (of_int 255)) = min (max k 0) 255"
    for k :: int
  proof -
    have "min (max (of_int k) (of_int 0)) (of_int 255) = (of_int (min (max k 0) 255) :: rat)"
      by (simp add: min_def max_def)
    then show ?thesis by (simp add: int_of_float_def)
  qed
  then show ?thesis by (simp add: rescale_pixel_def)
qed

text \<open>
  C9. For an image that is not of type uint8 the decorated function is \<open>func\<close> itself. For
  a uint8 image, \<open>func\<close> runs on the float32 tensor \<open>tmp\<close> of the elements divided by 255,
  all of which lie in \<open>[0, 1]\<close>; the result is multiplied by 255, rounded, clamped to
  \<open>[0, 255]\<close> and cast to uint8, so it is a uint8 tensor again, and a float32 result of
  \<open>func\<close> is rescaled element by element.
\<close>

theorem on_float_image_normalises_and_rescales:
  "(dtype_of img \<noteq> UInt8 \<longrightarrow> on_float_image func img = func img)
   \<and> (\<forall>ws. img = U8 ws \<longrightarrow>
        (let xs = map (\<lambda>w. fl32 (fl32 (of_nat (unat w)) / 255)) ws; tmp = F32 xs
         in (\<forall>v\<in>set xs. 0 \<le> v \<and> v \<le> 1)
          \<and> on_float_image func img = to_uint8 (clamp_t (round_t (mul_scalar (func tmp) 255)) 0 255)
          \<and> dtype_of (on_float_image func img) = UInt8
          \<and> (\<forall>rs. func tmp = F32 rs \<longrightarrow> on_float_image func img = U8 (map rescale_pixel rs))))"
proof (intro conjI allI impI)
  assume "dtype_of img \<noteq> UInt8"
  then show "on_float_image func img = func img" by (simp add: on_float_image_def)
next
  fix ws
  assume img: "img = U8 ws"
  define xs where "xs = map (\<lambda>w. fl32 (fl32 (of_nat (unat w)) / 255)) ws"
  have tmp: "div_scalar (to_float32 (U8 ws)) 255 = F32 xs"
    by (simp add: xs_def comp_def del: of_nat_unat)
  have run: "on_float_image func img
      = to_uint8 (clamp_t (round_t (mul_scalar (func (F32 xs)) 255)) 0 255)"
    unfolding on_float_image_def img Let_def tmp by simp
  have range: "\<forall>v\<in>set xs. 0 \<le> v \<and> v \<le> 1" using normalised_range by (auto simp: xs_def)
  have dt: "dtype_of (to_uint8 t) = UInt8" for t by (cases t) simp_all
  have rs: "\<forall>rs. func (F32 xs) = F32 rs \<longrightarrow> on_float_image func img = U8 (map rescale_pixel rs)"
  proof (intro allI impI)
    fix rs assume e: "func (F32 xs) = F32 rs"
    show "on_float_image func img = U8 (map rescale_pixel rs)" by (simp only: run e rescale_F32)
  qed
  show "let xs = map (\<lambda>w. fl32 (fl32 (of_nat (unat w)) / 255)) ws; tmp = F32 xs
         in (\<forall>v\<in>set xs. 0 \<le> v \<and> v \<le> 1)
          \<and> on_float_image func img = to_uint8 (clamp_t (round_t (mul_scalar (func tmp) 255)) 0 255)
          \<and> dtype_of (on_float_image func img) = UInt8
          \<and> (\<forall>rs. func tmp = F32 rs \<longrightarrow> on_float_image func img = U8 (map rescale_pixel rs))"
    unfolding Let_def xs_def[symmetric] using range run rs by (simp add: dt)
qed

theorem on_float_image_normalises_and_rescales_witness:
  "on_float_image (\<lambda>t. t) (F32 [1 / 2]) = F32 [1 / 2]
   \<and> dtype_of (on_float_image (\<lambda>t. F32 [1 / 2, 2]) (U8 [0, 128, 255])) = UInt8
   \<and> on_float_image (\<lambda>t. F32 [1 / 2, 2]) (U8 [0, 128, 255]) = U8 [128, 255]"
proof -
  have a: "on_float_image (\<lambda>t. t) (F32 [1 / 2]) = F32 [1 / 2]"
    using on_float_image_normalises_and_rescales[of "F32 [1 / 2]" "\<lambda>t. t"] by simp
  have r: "rescale_pixel (1 / 2) = 128" "rescale_pixel 2 = 255" by code_simp+
  have b: "dtype_of (on_float_image (\<lambda>t. F32 [1 / 2, 2]) (U8 [0, 128, 255])) = UInt8
     \<and> on_float_image (\<lambda>t. F32 [1 / 2, 2]) (U8 [0, 128, 255]) = U8 (map rescale_pixel [1 / 2, 2])"
    using on_float_image_normalises_and_rescales[of "U8 [0, 128, 255]" "\<lambda>t. F32 [1 / 2, 2]"]
    unfolding Let_def by blast
  show ?thesis using a b r by simp
qed

section \<open>RandomResizedCropTorch.get\_params\_dependent\_on\_targets\<close>

lemma attempts_all_rejected:
  "(\<forall>c\<in>set cs. \<not> accepted height width c) \<Longrightarrow> attempts height width cs g = None"
  by (induction cs) simp_all

lemma py_round_err: "\<bar>of_int (py_round x) - x\<bar> \<le> 1 / 2"
  unfolding py_round_def by (rule rhe_err)

text \<open>
  C7 as stated fails: the crop of the fallback does not have the clamped aspect ratio. For
  a \<open>10 \<times> 10\<close> image and the ratio range \<open>[3, 3]\<close> the fallback returns the width 10 and
  the height \<open>round (10 / 3) = 3\<close>, and \<open>10 / 3\<close> is not 3.
\<close>

theorem rrc_fallback_aspect_counterexample:
  "map_sum id (\<lambda>(p, g). (crop_width p, crop_height p))
      (rrc_get_params example_rrc 10 10 (\<lambda>k. (17, 6)) example_rand) = Inr (10, 3)
   \<and> min (max (fl64 (10 / 10)) 3) 3 = (3 :: rat) \<and> (10 :: rat) / 3 \<noteq> 3"
proof -
  have "attempts 10 10 (map (\<lambda>k. (17, 6)) [0..<10]) example_rand = None"
    by (rule attempts_all_rejected) (simp add: accepted_def)
  moreover have "fl64 (10 / 10) = 1" using fl_of_int[of 1 53] by (simp add: fl64_def)
  moreover have "py_round (fl64 (float_of_int 10 / 3)) = 3" by code_simp
  ultimately show ?thesis
    by (simp add: rrc_get_params_def example_rrc_def central_crop_def sized_crop_def)
qed

text \<open>
  C7, amended. When the ratio bounds are positive, the height is positive and all ten
  candidates are rejected, the call returns the central crop: with \<open>in_ratio\<close> the float
  quotient \<open>width / height\<close>, it has \<open>w = width\<close> and \<open>h = round (width / ratio_min)\<close> when
  \<open>in_ratio < ratio_min\<close>, \<open>h = height\<close> and \<open>w = round (height * ratio_max)\<close> when
  \<open>ratio_max < in_ratio\<close>, and the whole image otherwise; the start fractions are those of
  \<open>i = (height - h) div 2\<close> and \<open>j = (width - w) div 2\<close>. The computed side is within
  \<open>1 / 2\<close> of the float quotient or product it rounds, so the aspect ratio of the crop is
  the clamped ratio up to this rounding only.
\<close>

theorem rrc_fallback_central_crop:
  assumes height: "0 < height"
    and ratio: "0 < fst (self_ratio self)" "0 < snd (self_ratio self)"
    and rejected: "\<forall>k<10. \<not> accepted height width (cand k)"
  defines "ratio_min \<equiv> min (fst (self_ratio self)) (snd (self_ratio self))"
    and "ratio_max \<equiv> max (fst (self_ratio self)) (snd (self_ratio self))"
    and "in_ratio \<equiv> fl64 (of_int width / of_int height)"
  shows "\<exists>p. rrc_get_params self height width cand g = Inr (p, g)
    \<and> (in_ratio < ratio_min \<longrightarrow>
          crop_width p = width
        \<and> crop_height p = py_round (fl64 (float_of_int width / ratio_min))
        \<and> \<bar>of_int (crop_height p) - fl64 (float_of_int width / ratio_min)\<bar> \<le> 1 / 2)
    \<and> (ratio_max < in_ratio \<longrightarrow>
          crop_height p = height
        \<and> crop_width p = py_round (fl64 (float_of_int height * ratio_max))
        \<and> \<bar>of_int (crop_width p) - fl64 (float_of_int height * ratio_max)\<bar> \<le> 1 / 2)
    \<and> (ratio_min \<le> in_ratio \<and> in_ratio \<le> ratio_max \<longrightarrow>
          crop_width p = width \<and> crop_height p = height)
    \<and> h_start p = start_fraction ((height - crop_height p) div 2) (height - crop_height p)
    \<and> w_start p = start_fraction ((width - crop_width p) div 2) (width - crop_width p)"
proof -
  define p where "p = central_crop self height width in_ratio"
  have "\<forall>c\<in>set (map cand [0..<10]). \<not> accepted height width c" using rejected by simp
  then have "attempts height width (map cand [0..<10]) g = None" by (rule attempts_all_rejected)
  then have res: "rrc_get_params self height width cand g = Inr (p, g)"
    using height ratio by (simp add: rrc_get_params_def p_def in_ratio_def)
  have le: "ratio_min \<le> ratio_max" by (simp add: ratio_min_def ratio_max_def)
  have lo: "in_ratio < ratio_min \<longrightarrow>
          crop_width p = width
        \<and> crop_height p = py_round (fl64 (float_of_int width / ratio_min))
        \<and> \<bar>of_int (crop_height p) - fl64 (float_of_int width / ratio_min)\<bar> \<le> 1 / 2"
    using py_round_err[of "fl64 (float_of_int width / ratio_min)"]
    by (simp add: p_def central_crop_def sized_crop_def ratio_min_def Let_def)
  have hi: "ratio_max < in_ratio \<longrightarrow>
          crop_height p = height
        \<and> crop_width p = py_round (fl64 (float_of_int height * ratio_max))
        \<and> \<bar>of_int (crop_width p) - fl64 (float_of_int height * ratio_max)\<bar> \<le> 1 / 2"
  proof
    assume a: "ratio_max < in_ratio"
    then have "\<not> in_ratio < ratio_min" using le by simp
    then show "crop_height p = height
        \<and> crop_width p = py_round (fl64 (float_of_int height * ratio_max))
        \<and> \<bar>of_int (crop_width p) - fl64 (float_of_int height * ratio_max)\<bar> \<le> 1 / 2"
      using a py_round_err[of "fl64 (float_of_int height * ratio_max)"]
      by (simp add: p_def central_crop_def sized_crop_def Let_def ratio_min_def[symmetric]
          ratio_max_def[symmetric])
  qed
  have mid: "ratio_min \<le> in_ratio \<and> in_ratio \<le> ratio_max \<longrightarrow>
          crop_width p = width \<and> crop_height p = height"
    by (simp add: p_def central_crop_def sized_crop_def Let_def ratio_min_def[symmetric]
        ratio_max_def[symmetric])
  have st: "h_start p = start_fraction ((height - crop_height p) div 2) (height - crop_height p)"
      "w_start p = start_fraction ((width - crop_width p) div 2) (width - crop_width p)"
    by (simp_all add: p_def central_crop_def sized_crop_def Let_def split: prod.splits)
  show ?thesis using res lo hi mid st by blast
qed

theorem rrc_fallback_central_crop_witness:
  "\<exists>p. rrc_get_params example_rrc 10 10 (\<lambda>k. (17, 6)) example_rand = Inr (p, example_rand)
     \<and> crop_width p = 10 \<and> crop_height p = 3
     \<and> h_start p = start_fraction 3 7 \<and> w_start p = start_fraction 0 0"
proof -
  have r: "fl64 (rat_of_int 10 / rat_of_int 10) = 1"
    using fl_of_int[of 1 53] by (simp add: fl64_def)
  have q: "py_round (fl64 (float_of_int 10 / 3)) = 3" by code_simp
  from rrc_fallback_central_crop[of 10 example_rrc 10 "\<lambda>k. (17, 6)" example_rand]
  obtain p where p: "rrc_get_params example_rrc 10 10 (\<lambda>k. (17, 6)) example_rand
        = Inr (p, example_rand)"
      "crop_width p = 10" "crop_height p = 3"
      "h_start p = start_fraction ((10 - crop_height p) div 2) (10 - crop_height p)"
      "w_start p = start_fraction ((10 - crop_width p) div 2) (10 - crop_width p)"
    unfolding r by (auto simp: example_rrc_def accepted_def q)
  then show ?thesis by auto
qed

section \<open>The grid of RandomGridShuffleTorch\<close>

subsection \<open>The boundaries computed by linspace\<close>

lemma fl64_of_int: "\<bar>k\<bar> < 2 ^ 53 \<Longrightarrow> fl64 (of_int k) = of_int k"
  unfolding fl64_def by (rule fl_of_int)

lemma fl64_of_nat: "n < 2 ^ 53 \<Longrightarrow> fl64 (of_nat n) = of_nat n"
  using fl64_of_int[of "int n"] by simp

lemma fl64_zero: "fl64 0 = 0"
  by (simp add: fl64_def fl_def)

lemma fl64_nonneg: "0 \<le> x \<Longrightarrow> 0 \<le> fl64 x"
  unfolding fl64_def by (rule fl_nonneg) simp_all

lemma fl64_pos:
  assumes "0 < x"
  shows "0 < fl64 x"
proof -
  have "(0::rat) < 2 powi (ilog2 x)" by simp
  also have "\<dots> \<le> fl_pos 53 x" using assms by (intro fl_pos_bounds) simp_all
  finally show ?thesis using assms by (simp add: fl64_def fl_def)
qed

lemma fl64_mono: "0 \<le> x \<Longrightarrow> x \<le> y \<Longrightarrow> fl64 x \<le> fl64 y"
  unfolding fl64_def by (rule fl_mono) simp_all

lemma fl64_idem: "0 \<le> x \<Longrightarrow> fl64 (fl64 x) = fl64 x"
  unfolding fl64_def by (rule fl_idem) simp_all

lemma fl64_err: "0 \<le> x \<Longrightarrow> \<bar>fl64 x - x\<bar> \<le> x / 2 ^ 53"
  unfolding fl64_def by (rule fl_err) simp_all

lemma linspace_grid:
  assumes n: "0 < n" and nH: "int n * 2 \<le> H" and H: "H < 2 ^ 53"
  shows "linspace 0 H (n + 1)
    = map (\<lambda>i. \<lfloor>fl64 (of_nat i * fl64 (of_int H / of_nat n))\<rfloor>) [0..<n] @ [H]"
proof -
  define s where "s = fl64 (of_int H / of_nat n)"
  define f where "f = (\<lambda>i::nat. fl64 (of_nat i * s))"
  have H0: "0 < H" using n nH by linarith
  have n53: "int n < 2 ^ 53" using n nH H by linarith
  have a: "float_of_int 0 = 0" by (simp add: float_of_int_def fl64_zero)
  have c: "fl64 (of_int H) = of_int H" using H H0 by (intro fl64_of_int) simp
  have b: "float_of_int H = of_int H" by (simp add: float_of_int_def c)
  have d: "float_of_int (int n) = of_nat n"
    using n53 float_of_int_exact[of "int n"] by simp
  have spos: "0 < s" unfolding s_def using H0 n by (intro fl64_pos) simp
  have fnn: "0 \<le> f i" for i unfolding f_def using spos by (intro fl64_nonneg) simp
  have y: "map (\<lambda>i. fl64 (fl64 (float_of_int (int i) * s))) [0..<Suc n] = map f [0..<Suc n]"
  proof (rule map_cong[OF refl])
    fix i assume "i \<in> set [0..<Suc n]"
    then have "i \<le> n" by auto
    then have "\<bar>int i\<bar> < 2 ^ 53" using n53 by linarith
    from float_of_int_exact[OF this] have e: "float_of_int (int i) = of_nat i" by simp
    have "0 \<le> of_nat i * s" using spos by simp
    then show "fl64 (fl64 (float_of_int (int i) * s)) = f i"
      unfolding e f_def by (rule fl64_idem)
  qed
  have "linspace 0 H (n + 1) = map int_of_float ((map f [0..<n + 1])[n := of_int H])"
    unfolding linspace_def Let_def using n spos
    by (simp add: a b c d y fl64_zero s_def[symmetric] comp_def del: upt_Suc)
  also have "(map f [0..<n + 1])[n := of_int H] = map f [0..<n] @ [of_int H]"
    by (simp add: list_update_append)
  also have "map int_of_float (map f [0..<n] @ [of_int H]) = map (\<lambda>i. \<lfloor>f i\<rfloor>) [0..<n] @ [H]"
    using fnn H0 by (simp add: int_of_float_def)
  finally show ?thesis by (simp add: f_def s_def)
qed

lemma linspace_inner_le:
  assumes n: "0 < n" and nH: "int n * 2 \<le> H" and H: "H < 2 ^ 53" and i: "i < n"
  shows "fl64 (of_nat i * fl64 (of_int H / of_nat n)) \<le> of_int H"
proof -
  define q :: rat where "q = of_int H / of_nat n"
  define s where "s = fl64 q"
  have H0: "0 < H" using n nH by linarith
  have q0: "0 < q" using H0 n by (simp add: q_def)
  have qn: "q * of_nat n = of_int H" using n by (simp add: q_def)
  define e :: rat where "e = 1 / 2 ^ 53"
  have e0: "0 < e" by (simp add: e_def)
  have qe: "q / 2 ^ 53 = q * e" by (simp add: e_def)
  have "\<bar>s - q\<bar> \<le> q / 2 ^ 53" unfolding s_def using q0 by (intro fl64_err) simp
  then have "\<bar>s - q\<bar> \<le> q * e" by (simp only: qe)
  then have "s - q \<le> q * e" by linarith
  then have s: "s \<le> q * (1 + e)" by (simp add: algebra_simps)
  have s0: "0 < s" unfolding s_def using q0 by (rule fl64_pos)
  have i1: "(of_nat i :: rat) \<le> of_nat n - 1"
  proof -
    have "Suc i \<le> n" using i by simp
    then have "(of_nat (Suc i) :: rat) \<le> of_nat n" by (simp only: of_nat_le_iff)
    then show ?thesis by simp
  qed
  have "int n \<le> 2 ^ 53" using nH H H0 by linarith
  then have "(of_int (int n) :: rat) \<le> of_int (2 ^ 53)" by (simp only: of_int_le_iff)
  then have "(of_nat n :: rat) \<le> 2 ^ 53" by simp
  then have n53: "(of_nat n :: rat) * e \<le> 1" by (simp add: e_def)
  have "(of_nat n - 1) * (1 + e) = of_nat n - 1 + (of_nat n * e - e)"
    by (simp add: algebra_simps)
  also have "\<dots> \<le> of_nat n - 1 + 1" using n53 e0 by linarith
  finally have k: "(of_nat n - 1) * (1 + e) \<le> (of_nat n :: rat)" by simp
  have "of_nat i * s \<le> (of_nat n - 1) * (q * (1 + e))"
    using i1 s s0 by (intro mult_mono) simp_all
  also have "\<dots> = q * ((of_nat n - 1) * (1 + e))" by simp
  also have "\<dots> \<le> q * of_nat n" using k q0 by (intro mult_left_mono) simp_all
  finally have "of_nat i * s \<le> of_int H" by (simp add: qn)
  moreover have "0 \<le> of_nat i * s" using s0 by simp
  ultimately have "fl64 (of_nat i * s) \<le> fl64 (of_int H)" by (intro fl64_mono)
  moreover have "fl64 (of_int H) = of_int H" using H H0 by (intro fl64_of_int) simp
  ultimately show ?thesis by (simp add: s_def q_def)
qed

lemma linspace_boundaries:
  assumes n: "0 < n" and nH: "int n * 2 \<le> H" and H: "H < 2 ^ 53"
  defines "b \<equiv> linspace 0 H (n + 1)"
  shows "length b = n + 1" and "b ! 0 = 0" and "b ! n = H" and "sorted b"
proof -
  define g where "g = (\<lambda>i::nat. \<lfloor>fl64 (of_nat i * fl64 (of_int H / of_nat n))\<rfloor>)"
  have b: "b = map g [0..<n] @ [H]" unfolding b_def g_def by (rule linspace_grid[OF assms(1-3)])
  have s0: "0 < fl64 (of_int H / of_nat n)" using n nH by (intro fl64_pos) simp
  show "length b = n + 1" by (simp add: b)
  have "g 0 = 0" by (simp add: g_def fl64_zero)
  then show "b ! 0 = 0" using n by (simp add: b nth_append)
  show "b ! n = H" by (simp add: b nth_append)
  have mono: "g i \<le> g j" if "i \<le> j" for i j
  proof -
    have "(of_nat i :: rat) * fl64 (of_int H / of_nat n) \<le> of_nat j * fl64 (of_int H / of_nat n)"
      using that s0 by (intro mult_right_mono) simp_all
    moreover have "0 \<le> (of_nat i :: rat) * fl64 (of_int H / of_nat n)" using s0 by simp
    ultimately show ?thesis unfolding g_def by (intro floor_mono fl64_mono)
  qed
  have "sorted_wrt (\<lambda>x y. g x \<le> g y) [0..<n]"
    by (rule sorted_wrt_mono_rel[of _ "(<)"]) (simp_all add: mono)
  then have 1: "sorted (map g [0..<n])" by (simp add: sorted_map)
  have 2: "g i \<le> H" if "i < n" for i
  proof -
    have "\<lfloor>fl64 (of_nat i * fl64 (of_int H / of_nat n))\<rfloor> \<le> \<lfloor>(of_int H :: rat)\<rfloor>"
      by (intro floor_mono linspace_inner_le[OF n nH H that])
    then show ?thesis by (simp add: g_def)
  qed
  show "sorted b" using 1 2 by (auto simp: b sorted_append)
qed

lemma unique_interval:
  fixes b :: "int list"
  assumes "sorted b" and "b ! 0 \<le> y" and "y < b ! n" and "n < length b"
  shows "\<exists>!i. i < n \<and> b ! i \<le> y \<and> y < b ! (i + 1)"
proof -
  have ex: "\<exists>i<k. b ! i \<le> y \<and> y < b ! (i + 1)" if "y < b ! k" "k \<le> n" for k
    using that
  proof (induction k)
    case 0
    then show ?case using assms(2) by simp
  next
    case (Suc k)
    show ?case
    proof (cases "y < b ! k")
      case True
      with Suc obtain i where "i < k" "b ! i \<le> y \<and> y < b ! (i + 1)" by auto
      then show ?thesis using less_Suc_eq by auto
    next
      case False
      then show ?thesis using Suc.prems by auto
    qed
  qed
  from ex[of n] assms(3) obtain i where i: "i < n" "b ! i \<le> y" "y < b ! (i + 1)" by auto
  show ?thesis
  proof (rule ex1I[of _ i])
    show "i < n \<and> b ! i \<le> y \<and> y < b ! (i + 1)" using i by simp
  next
    fix j assume j: "j < n \<and> b ! j \<le> y \<and> y < b ! (j + 1)"
    show "j = i"
    proof (rule ccontr)
      assume "j \<noteq> i"
      then consider "j < i" | "i < j" by linarith
      then show False
      proof cases
        case 1
        then have "b ! (j + 1) \<le> b ! i" using assms(1,4) i(1)
          by (intro sorted_nth_mono) simp_all
        with j i show False by linarith
      next
        case 2
        then have "b ! (i + 1) \<le> b ! j" using assms(1,4) j
          by (intro sorted_nth_mono) simp_all
        with j i show False by linarith
      qed
    qed
  qed
qed

subsection \<open>The partition\<close>

lemma without_last_nth:
  assumes "i + 1 < length a" "j + 1 < length (a ! i)"
  shows "without_last a ! i ! j = a ! i ! j"
  using assms by (simp add: without_last_def nth_butlast)

lemma without_first_nth:
  assumes "i + 1 < length a" "j + 1 < length (a ! (i + 1))"
  shows "without_first a ! i ! j = a ! (i + 1) ! (j + 1)"
  using assms by (simp add: without_first_def nth_tl)

lemma subtract_nth:
  assumes "i < length a" "i < length b" "j < length (a ! i)" "j < length (b ! i)"
  shows "subtract a b ! i ! j = a ! i ! j - b ! i ! j"
  using assms by (simp add: subtract_def)

lemma grid_partition_shape:
  assumes "length (linspace 0 H (n + 1)) = n + 1" "length (linspace 0 W (m + 1)) = m + 1"
  defines "G \<equiv> grid_partition H W n m"
  shows "length (index_height_matrix G) = n" "length (index_width_matrix G) = n"
    "length (height_tile_sizes G) = n" "length (width_tile_sizes G) = n"
    "i < n \<Longrightarrow> length (index_height_matrix G ! i) = m"
    "i < n \<Longrightarrow> length (index_width_matrix G ! i) = m"
    "i < n \<Longrightarrow> length (height_tile_sizes G ! i) = m"
    "i < n \<Longrightarrow> length (width_tile_sizes G ! i) = m"
  using assms(1,2)
  by (simp_all add: G_def grid_partition_def meshgrid_ij_def without_last_def without_first_def
      subtract_def Let_def nth_butlast nth_tl)

lemma grid_partition_nth:
  assumes "length (linspace 0 H (n + 1)) = n + 1" "length (linspace 0 W (m + 1)) = m + 1"
    and "i < n" "j < m"
  defines "G \<equiv> grid_partition H W n m"
  shows "index_height_matrix G ! i ! j = linspace 0 H (n + 1) ! i"
    and "index_width_matrix G ! i ! j = linspace 0 W (m + 1) ! j"
    and "height_tile_sizes G ! i ! j = linspace 0 H (n + 1) ! (i + 1) - linspace 0 H (n + 1) ! i"
    and "width_tile_sizes G ! i ! j = linspace 0 W (m + 1) ! (j + 1) - linspace 0 W (m + 1) ! j"
  using assms(1-4)
  by (simp_all add: G_def grid_partition_def meshgrid_ij_def without_last_def without_first_def
      subtract_def Let_def nth_butlast nth_tl)

lemma in_tile_iff:
  assumes "length (linspace 0 H (n + 1)) = n + 1" "length (linspace 0 W (m + 1)) = m + 1"
    and "fst t < n" "snd t < m"
  shows "in_tile (grid_partition H W n m) t p \<longleftrightarrow>
      linspace 0 H (n + 1) ! fst t \<le> fst p \<and> fst p < linspace 0 H (n + 1) ! (fst t + 1)
    \<and> linspace 0 W (m + 1) ! snd t \<le> snd p \<and> snd p < linspace 0 W (m + 1) ! (snd t + 1)"
  by (simp add: in_tile_def Let_def grid_partition_nth[OF assms])

text \<open>
  C1. For \<open>0 < n \<le> H div 2\<close> and \<open>0 < m \<le> W div 2\<close> (and sizes below \<open>2 ^ 53\<close>, which a
  float holds exactly) the grid of \<open>grid_partition H W n m\<close> tiles the image: the tile
  heights of every column add up to \<open>H\<close>, the tile widths of every row add up to \<open>W\<close>,
  every pixel of the image lies in exactly one tile, and every tile lies in the image.
\<close>

theorem grid_partition_tiles_image:
  assumes n: "0 < n" "int n \<le> H div 2" and m: "0 < m" "int m \<le> W div 2"
    and H: "H < 2 ^ 53" and W: "W < 2 ^ 53"
  defines "G \<equiv> grid_partition H W n m"
  shows "(\<forall>j<m. (\<Sum>i<n. height_tile_sizes G ! i ! j) = H)
    \<and> (\<forall>i<n. (\<Sum>j<m. width_tile_sizes G ! i ! j) = W)
    \<and> (\<forall>y x. 0 \<le> y \<and> y < H \<and> 0 \<le> x \<and> x < W \<longrightarrow>
          (\<exists>!t. fst t < n \<and> snd t < m \<and> in_tile G t (y, x)))
    \<and> (\<forall>t y x. fst t < n \<and> snd t < m \<and> in_tile G t (y, x) \<longrightarrow>
          0 \<le> y \<and> y < H \<and> 0 \<le> x \<and> x < W)"
proof -
  define hs where "hs = linspace 0 H (n + 1)"
  define ws where "ws = linspace 0 W (m + 1)"
  have nH: "int n * 2 \<le> H" and mW: "int m * 2 \<le> W" using n(2) m(2) by linarith+
  note hb = linspace_boundaries[OF n(1) nH H, folded hs_def]
  note wb = linspace_boundaries[OF m(1) mW W, folded ws_def]
  note nth = grid_partition_nth[OF hb(1)[unfolded hs_def] wb(1)[unfolded ws_def],
      folded hs_def ws_def G_def]
  note tile = in_tile_iff[OF hb(1)[unfolded hs_def] wb(1)[unfolded ws_def],
      folded hs_def ws_def G_def]
  have col: "(\<Sum>i<n. height_tile_sizes G ! i ! j) = H" if "j < m" for j
  proof -
    have "(\<Sum>i<n. height_tile_sizes G ! i ! j) = (\<Sum>i<n. hs ! Suc i - hs ! i)"
      using that by (intro sum.cong) (simp_all add: nth)
    also have "\<dots> = hs ! n - hs ! 0" by (rule sum_lessThan_telescope)
    finally show ?thesis by (simp add: hb)
  qed
  have row: "(\<Sum>j<m. width_tile_sizes G ! i ! j) = W" if "i < n" for i
  proof -
    have "(\<Sum>j<m. width_tile_sizes G ! i ! j) = (\<Sum>j<m. ws ! Suc j - ws ! j)"
      using that by (intro sum.cong) (simp_all add: nth)
    also have "\<dots> = ws ! m - ws ! 0" by (rule sum_lessThan_telescope)
    finally show ?thesis by (simp add: wb)
  qed
  have cover: "\<exists>!t. fst t < n \<and> snd t < m \<and> in_tile G t (y, x)"
    if "0 \<le> y \<and> y < H \<and> 0 \<le> x \<and> x < W" for y x
  proof -
    from that hb have "\<exists>!i. i < n \<and> hs ! i \<le> y \<and> y < hs ! (i + 1)"
      by (intro unique_interval) simp_all
    then obtain i where i: "i < n" "hs ! i \<le> y" "y < hs ! (i + 1)"
      and iu: "\<And>k. k < n \<and> hs ! k \<le> y \<and> y < hs ! (k + 1) \<Longrightarrow> k = i" by blast
    from that wb have "\<exists>!j. j < m \<and> ws ! j \<le> x \<and> x < ws ! (j + 1)"
      by (intro unique_interval) simp_all
    then obtain j where j: "j < m" "ws ! j \<le> x" "x < ws ! (j + 1)"
      and ju: "\<And>k. k < m \<and> ws ! k \<le> x \<and> x < ws ! (k + 1) \<Longrightarrow> k = j" by blast
    show ?thesis
    proof (rule ex1I[of _ "(i, j)"])
      show "fst (i, j) < n \<and> snd (i, j) < m \<and> in_tile G (i, j) (y, x)"
        using i j by (simp add: tile)
    next
      fix t assume t: "fst t < n \<and> snd t < m \<and> in_tile G t (y, x)"
      then have tn: "fst t < n" "snd t < m" and "in_tile G t (y, x)" by simp_all
      then have "hs ! fst t \<le> y \<and> y < hs ! (fst t + 1)" "ws ! snd t \<le> x \<and> x < ws ! (snd t + 1)"
        by (simp_all add: tile)
      with tn have "fst t = i" "snd t = j" using iu[of "fst t"] ju[of "snd t"] by simp_all
      then show "t = (i, j)" by (simp add: prod_eq_iff)
    qed
  qed
  have inside: "0 \<le> y \<and> y < H \<and> 0 \<le> x \<and> x < W"
    if t: "fst t < n \<and> snd t < m \<and> in_tile G t (y, x)" for t y x
  proof -
    from t have tn: "fst t < n" "snd t < m" and "in_tile G t (y, x)" by simp_all
    then have b: "hs ! fst t \<le> y" "y < hs ! (fst t + 1)" "ws ! snd t \<le> x" "x < ws ! (snd t + 1)"
      by (simp_all add: tile)
    have "hs ! 0 \<le> hs ! fst t" "hs ! (fst t + 1) \<le> hs ! n"
      using t hb(1,4) by (simp_all add: sorted_nth_mono)
    moreover have "ws ! 0 \<le> ws ! snd t" "ws ! (snd t + 1) \<le> ws ! m"
      using t wb(1,4) by (simp_all add: sorted_nth_mono)
    ultimately show ?thesis using b hb(2,3) wb(2,3) by linarith
  qed
  show ?thesis using col row cover inside by blast
qed

theorem grid_partition_tiles_image_witness:
  "(\<Sum>i<2. height_tile_sizes (grid_partition 5 4 2 2) ! i ! 0) = 5
   \<and> (\<Sum>j<2. width_tile_sizes (grid_partition 5 4 2 2) ! 1 ! j) = 4
   \<and> (\<exists>!t. fst t < 2 \<and> snd t < 2 \<and> in_tile (grid_partition 5 4 2 2) t (3, 1))"
proof -
  have T: "(\<forall>j<2. (\<Sum>i<2. height_tile_sizes (grid_partition 5 4 2 2) ! i ! j) = 5)
    \<and> (\<forall>i<2. (\<Sum>j<2. width_tile_sizes (grid_partition 5 4 2 2) ! i ! j) = 4)
    \<and> (\<forall>y x. 0 \<le> y \<and> y < 5 \<and> 0 \<le> x \<and> x < 4 \<longrightarrow>
          (\<exists>!t. fst t < 2 \<and> snd t < 2 \<and> in_tile (grid_partition 5 4 2 2) t (y, x)))
    \<and> (\<forall>t y x. fst t < 2 \<and> snd t < 2 \<and> in_tile (grid_partition 5 4 2 2) t (y, x) \<longrightarrow>
          0 \<le> y \<and> y < 5 \<and> 0 \<le> x \<and> x < 4)"
    using grid_partition_tiles_image[of 2 5 2 4] by simp
  then have a: "\<forall>j<2::nat. (\<Sum>i<2. height_tile_sizes (grid_partition 5 4 2 2) ! i ! j) = 5"
    and b: "\<forall>i<2::nat. (\<Sum>j<2. width_tile_sizes (grid_partition 5 4 2 2) ! i ! j) = 4"
    and c: "\<forall>y x. 0 \<le> y \<and> y < 5 \<and> 0 \<le> x \<and> x < 4 \<longrightarrow>
          (\<exists>!t. fst t < (2::nat) \<and> snd t < (2::nat) \<and> in_tile (grid_partition 5 4 2 2) t (y, x))"
    by blast+
  from a have "(\<Sum>i<2. height_tile_sizes (grid_partition 5 4 2 2) ! i ! 0) = 5" by simp
  moreover from b have "(\<Sum>j<2. width_tile_sizes (grid_partition 5 4 2 2) ! 1 ! j) = 4" by simp
  moreover from c have "\<exists>!t. fst t < (2::nat) \<and> snd t < (2::nat) \<and> in_tile (grid_partition 5 4 2 2) t (3, 1)"
    by simp
  ultimately show ?thesis by blast
qed

subsection \<open>Permutations and boolean masks\<close>

lemma length_linspace: "length (linspace start stop num) = num"
  by (simp add: linspace_def Let_def)

lemma mset_swap_list: "i < length xs \<Longrightarrow> j < length xs \<Longrightarrow> mset (swap xs i j) = mset xs"
  unfolding swap_def by (rule mset_swap)

lemma length_swap: "length (swap xs i j) = length xs"
  by (simp add: swap_def)

lemma mset_shuffle: "i < length xs \<Longrightarrow> mset (fst (shuffle i xs g)) = mset xs"
proof (induction i arbitrary: xs g)
  case 0
  then show ?case by simp
next
  case (Suc i)
  have j: "fst g (snd g) mod Suc (Suc i) < length xs"
    using Suc.prems mod_less_divisor[of "Suc (Suc i)" "fst g (snd g)"] by linarith
  have "mset (fst (shuffle i (swap xs (Suc i) (fst g (snd g) mod Suc (Suc i))) (fst g, Suc (snd g))))
      = mset (swap xs (Suc i) (fst g (snd g) mod Suc (Suc i)))"
    using Suc.prems by (intro Suc.IH) (simp add: length_swap)
  also have "\<dots> = mset xs" using Suc.prems j by (intro mset_swap_list)
  finally show ?case by (simp add: randbelow_def)
qed

lemma mset_permutation: "mset (fst (permutation xs g)) = mset xs"
proof (cases xs)
  case Nil
  then show ?thesis by (simp add: permutation_def)
next
  case (Cons x ys)
  then show ?thesis unfolding permutation_def by (intro mset_shuffle) simp
qed

lemma permutation_single: "permutation [x] g = ([x], g)"
  by (simp add: permutation_def)

lemma length_mask_set: "length (mask_set xs bs vs) = length xs"
  by (induction xs bs vs rule: mask_set.induct) (auto split: list.splits)

lemma mset_mask_set:
  "length vs = length (mask_get xs bs) \<Longrightarrow>
   mset (mask_set xs bs vs) + mset (mask_get xs bs) = mset xs + mset vs"
proof (induction xs bs vs rule: mask_set.induct)
  case (1 x xs b bs vs)
  show ?case
  proof (cases b)
    case True
    with 1 obtain v vs' where vs: "vs = v # vs'" by (cases vs) auto
    with 1 True have "mset (mask_set xs bs vs') + mset (mask_get xs bs) = mset xs + mset vs'"
      by simp
    then show ?thesis using True vs by (simp add: ac_simps)
  next
    case False
    with 1 show ?thesis by simp
  qed
qed simp_all

lemma mask_get_selected:
  "v \<in> set (mask_get xs (map (\<lambda>t. t = b) (map f xs))) \<Longrightarrow> f v = b"
  by (induction xs) (auto split: if_splits)

lemma map_mask_set:
  assumes "\<forall>v\<in>set vs. f v = b"
  shows "map f (mask_set xs (map (\<lambda>t. t = b) (map f xs)) vs) = map f xs"
  using assms by (induction xs arbitrary: vs) (auto split: list.splits)

subsection \<open>The tile mapping\<close>

lemma matrix_rows:
  assumes "length a = n" "\<forall>i<n. length (a ! i) = m"
  shows "a = map (\<lambda>i. map (\<lambda>j. a ! i ! j) [0..<m]) [0..<n]"
proof (rule nth_equalityI)
  show "length a = length (map (\<lambda>i. map (\<lambda>j. a ! i ! j) [0..<m]) [0..<n])"
    using assms(1) by simp
next
  fix i assume "i < length a"
  then have i: "i < n" using assms(1) by simp
  then have "length (a ! i) = m" using assms(2) by simp
  then have "a ! i = map (\<lambda>j. a ! i ! j) [0..<m]" using map_nth[of "a ! i"] by simp
  then show "a ! i = map (\<lambda>i. map (\<lambda>j. a ! i ! j) [0..<m]) [0..<n] ! i" using i by simp
qed

lemma concat_matrix:
  assumes "length a = n" "\<forall>i<n. length (a ! i) = m"
  shows "concat a = map (\<lambda>t. a ! fst t ! snd t) (concat (indices n m))"
proof -
  have "map (\<lambda>t. a ! fst t ! snd t) (concat (indices n m))
      = concat (map (\<lambda>i. map (\<lambda>j. a ! i ! j) [0..<m]) [0..<n])"
    by (simp add: indices_def map_concat comp_def)
  also have "\<dots> = concat a" using matrix_rows[OF assms] by simp
  finally show ?thesis by simp
qed

lemma concat_stack_axis2:
  assumes "length a = n" "\<forall>i<n. length (a ! i) = m"
    and "length b = n" "\<forall>i<n. length (b ! i) = m"
  shows "concat (stack_axis2 a b)
    = map (\<lambda>t. (a ! fst t ! snd t, b ! fst t ! snd t)) (concat (indices n m))"
proof -
  have l: "length (stack_axis2 a b) = n" using assms by (simp add: stack_axis2_def)
  have r: "\<forall>i<n. length (stack_axis2 a b ! i) = m" using assms by (simp add: stack_axis2_def)
  have "concat (stack_axis2 a b)
      = map (\<lambda>t. stack_axis2 a b ! fst t ! snd t) (concat (indices n m))"
    by (rule concat_matrix[OF l r])
  also have "\<dots> = map (\<lambda>t. (a ! fst t ! snd t, b ! fst t ! snd t)) (concat (indices n m))"
  proof (rule map_cong[OF refl])
    fix t assume "t \<in> set (concat (indices n m))"
    then have "fst t < n" "snd t < m" by (auto simp: indices_def)
    then show "stack_axis2 a b ! fst t ! snd t = (a ! fst t ! snd t, b ! fst t ! snd t)"
      using assms by (simp add: stack_axis2_def)
  qed
  finally show ?thesis .
qed

lemma set_indices: "set (concat (indices n m)) = {t. fst t < n \<and> snd t < m}"
  by (auto simp: indices_def)

lemma length_indices: "length (concat (indices n m)) = n * m"
  by (induction n) (simp_all add: indices_def length_concat comp_def sum_list_triv)

lemma permute_group_invariant:
  assumes "map f S = T"
  shows "map f (fst (permute_group T b (S, g))) = T"
    and "mset (fst (permute_group T b (S, g))) = mset S"
proof -
  define B where "B = map (\<lambda>t. t = b) (map f S)"
  define p where "p = fst (permutation (mask_get S B) g)"
  have r: "fst (permute_group T b (S, g)) = mask_set S B p"
    by (simp add: permute_group_def Let_def B_def p_def assms[symmetric] split: prod.splits)
  have mp: "mset p = mset (mask_get S B)" unfolding p_def by (rule mset_permutation)
  then have "set p = set (mask_get S B)" by (rule mset_eq_setD)
  then have sel: "\<forall>v\<in>set p. f v = b" using mask_get_selected[of _ S b f] by (simp add: B_def)
  have "map f (mask_set S B p) = map f S" unfolding B_def by (rule map_mask_set[OF sel])
  then show "map f (fst (permute_group T b (S, g))) = T" by (simp add: r assms)
  have "length p = length (mask_get S B)" using mp by (rule mset_eq_length)
  from mset_mask_set[OF this] show "mset (fst (permute_group T b (S, g))) = mset S"
    by (simp add: r mp)
qed

lemma fold_permute_group_invariant:
  assumes "map f S = T"
  shows "map f (fst (fold (permute_group T) bs (S, g))) = T
       \<and> mset (fst (fold (permute_group T) bs (S, g))) = mset S"
  using assms
proof (induction bs arbitrary: S g)
  case Nil
  then show ?case by simp
next
  case (Cons b bs)
  obtain S' g' where st: "permute_group T b (S, g) = (S', g')" by (cases "permute_group T b (S, g)")
  from permute_group_invariant[OF Cons.prems, of b g] st
  have S': "map f S' = T" "mset S' = mset S" by simp_all
  from Cons.IH[OF S'(1), of g'] show ?case by (simp add: st S'(2))
qed

lemma permute_tiles_invariant:
  fixes H W n m rs
  defines "G \<equiv> grid_partition H W n m"
  defines "S \<equiv> permute_tiles G n m rs"
  shows "map (tile_size G) S = map (tile_size G) (concat (indices n m))"
    and "mset S = mset (concat (indices n m))"
proof -
  have len: "length (linspace 0 H (n + 1)) = n + 1" "length (linspace 0 W (m + 1)) = m + 1"
    by (simp_all add: length_linspace)
  note sh = grid_partition_shape[OF len, folded G_def]
  have T: "concat (stack_axis2 (height_tile_sizes G) (width_tile_sizes G))
      = map (tile_size G) (concat (indices n m))"
    unfolding tile_size_def by (rule concat_stack_axis2) (simp_all add: sh)
  from fold_permute_group_invariant[OF T[symmetric]]
  show "map (tile_size G) S = map (tile_size G) (concat (indices n m))"
    and "mset S = mset (concat (indices n m))"
    by (simp_all add: S_def permute_tiles_def Let_def T)
qed

text \<open>
  C2. Let \<open>S\<close> be the tile mapping that the permutation step computes for the grid of an
  \<open>H \<times> W\<close> image and any random state: \<open>S ! k\<close> is the tile assigned to the \<open>k\<close>-th tile
  \<open>I ! k\<close> in row-major order. Every tile is assigned a tile of its own size signature,
  the tiles assigned to the tiles of a size group are a permutation of this group (and
  \<open>S\<close> is a permutation of all tiles), and a tile that is alone in its size group is
  assigned itself.
\<close>

theorem permute_tiles_size_preserving:
  fixes H W :: int and n m :: nat and rs :: rand_state
  defines "G \<equiv> grid_partition H W n m"
  defines "S \<equiv> permute_tiles G n m rs"
  defines "I \<equiv> concat (indices n m)"
  shows "length S = n * m
    \<and> (\<forall>k<n * m. tile_size G (S ! k) = tile_size G (I ! k))
    \<and> mset S = mset I
    \<and> (\<forall>s. mset (map snd (filter (\<lambda>p. tile_size G (fst p) = s) (zip I S)))
            = mset (filter (\<lambda>t. tile_size G t = s) I))
    \<and> (\<forall>k<n * m. (\<forall>j<n * m. tile_size G (I ! j) = tile_size G (I ! k) \<longrightarrow> j = k)
            \<longrightarrow> S ! k = I ! k)"
proof -
  note inv = permute_tiles_invariant[of H W n m rs, folded G_def S_def I_def]
  have lI: "length I = n * m" by (simp add: I_def length_indices)
  have lS: "length S = n * m" using mset_eq_length[OF inv(2)] lI by simp
  have size: "tile_size G (S ! k) = tile_size G (I ! k)" if "k < n * m" for k
    using that lS lI nth_map[of k S "tile_size G"] nth_map[of k I "tile_size G"] inv(1) by simp
  have group: "mset (map snd (filter (\<lambda>p. tile_size G (fst p) = s) (zip I S)))
      = mset (filter (\<lambda>t. tile_size G t = s) I)" for s
  proof -
    have "filter (\<lambda>p. tile_size G (fst p) = s) (zip I S)
        = filter (\<lambda>p. tile_size G (snd p) = s) (zip I S)"
    proof (rule filter_cong[OF refl])
      fix p assume "p \<in> set (zip I S)"
      then obtain k where "k < n * m" "p = (I ! k, S ! k)"
        using lI lS by (auto simp: set_zip)
      then show "(tile_size G (fst p) = s) = (tile_size G (snd p) = s)" using size by simp
    qed
    then have "map snd (filter (\<lambda>p. tile_size G (fst p) = s) (zip I S))
        = filter (\<lambda>t. tile_size G t = s) (map snd (zip I S))"
      by (simp add: filter_map comp_def)
    also have "map snd (zip I S) = S" using lI lS by simp
    finally show ?thesis by (simp add: inv(2))
  qed
  have single: "S ! k = I ! k"
    if k: "k < n * m" and alone: "\<forall>j<n * m. tile_size G (I ! j) = tile_size G (I ! k) \<longrightarrow> j = k"
    for k
  proof -
    have "S ! k \<in> set S" using k lS by simp
    then have "S ! k \<in> set I" using mset_eq_setD[OF inv(2)] by simp
    then obtain j where j: "j < n * m" "I ! j = S ! k" using lI by (auto simp: in_set_conv_nth)
    then have "tile_size G (I ! j) = tile_size G (I ! k)" using size[OF k] by simp
    with alone j have "j = k" by simp
    with j show ?thesis by simp
  qed
  show ?thesis using lS size inv(2) group single by blast
qed

theorem permute_tiles_size_preserving_witness:
  "length (permute_tiles (grid_partition 5 4 2 2) 2 2 example_rand) = 2 * 2
   \<and> mset (permute_tiles (grid_partition 5 4 2 2) 2 2 example_rand) = mset (concat (indices 2 2))
   \<and> tile_size (grid_partition 5 4 2 2) (permute_tiles (grid_partition 5 4 2 2) 2 2 example_rand ! 3)
     = tile_size (grid_partition 5 4 2 2) (concat (indices 2 2) ! 3)"
  using permute_tiles_size_preserving[of 5 4 2 2 example_rand] by simp

lemma fancy_index_in_range:
  assumes "length a = n" "\<forall>i<n. length (a ! i) = m" "set S \<subseteq> {t. fst t < n \<and> snd t < m}"
  shows "fancy_index a S = Inr (map (\<lambda>t. a ! fst t ! snd t) S)"
proof -
  have "list_all (\<lambda>(r, c). r < length a \<and> c < length (a ! r)) S"
    using assms by (auto simp: list_all_iff)
  moreover have "map (\<lambda>(r, c). a ! r ! c) S = map (\<lambda>t. a ! fst t ! snd t) S"
    by (simp add: case_prod_unfold)
  ultimately show ?thesis by (simp add: fancy_index_def)
qed

lemma make_tiles_records:
  fixes H W n m
  defines "G \<equiv> grid_partition H W n m"
  defines "I \<equiv> concat (indices n m)"
  assumes S: "set S \<subseteq> set I" "length S = n * m"
  shows "\<exists>tiles. make_tiles G S = Inr tiles \<and> length tiles = n * m
    \<and> (\<forall>k<n * m. tiles ! k =
          (fst (tile_corner G (I ! k)), snd (tile_corner G (I ! k)),
           fst (tile_corner G (S ! k)), snd (tile_corner G (S ! k)),
           fst (tile_size G (I ! k)), snd (tile_size G (I ! k))))"
proof -
  have len: "length (linspace 0 H (n + 1)) = n + 1" "length (linspace 0 W (m + 1)) = m + 1"
    by (simp_all add: length_linspace)
  note sh = grid_partition_shape[OF len, folded G_def]
  have lI: "length I = n * m" by (simp add: I_def length_indices)
  have rng: "set S \<subseteq> {t. fst t < n \<and> snd t < m}"
    using S(1) unfolding I_def set_indices .
  define old_x where "old_x = map (\<lambda>t. index_height_matrix G ! fst t ! snd t) S"
  define old_y where "old_y = map (\<lambda>t. index_width_matrix G ! fst t ! snd t) S"
  define curr_x where "curr_x = map (\<lambda>t. index_height_matrix G ! fst t ! snd t) I"
  define curr_y where "curr_y = map (\<lambda>t. index_width_matrix G ! fst t ! snd t) I"
  define shift_x where "shift_x = map (\<lambda>t. height_tile_sizes G ! fst t ! snd t) I"
  define shift_y where "shift_y = map (\<lambda>t. width_tile_sizes G ! fst t ! snd t) I"
  have fx: "fancy_index (index_height_matrix G) S = Inr old_x"
    unfolding old_x_def by (rule fancy_index_in_range[OF _ _ rng]) (simp_all add: sh)
  have fy: "fancy_index (index_width_matrix G) S = Inr old_y"
    unfolding old_y_def by (rule fancy_index_in_range[OF _ _ rng]) (simp_all add: sh)
  have c: "concat (index_height_matrix G) = curr_x" "concat (index_width_matrix G) = curr_y"
    "concat (height_tile_sizes G) = shift_x" "concat (width_tile_sizes G) = shift_y"
    unfolding curr_x_def curr_y_def shift_x_def shift_y_def I_def
    by (rule concat_matrix; simp add: sh)+
  define tiles where "tiles = stack_tiles curr_x curr_y old_x old_y shift_x shift_y"
  have res: "make_tiles G S = Inr tiles"
    by (simp add: make_tiles_def and_then_def fx fy c tiles_def)
  have ls: "length curr_x = n * m" "length curr_y = n * m" "length old_x = n * m"
    "length old_y = n * m" "length shift_x = n * m" "length shift_y = n * m"
    by (simp_all add: curr_x_def curr_y_def old_x_def old_y_def shift_x_def shift_y_def lI S(2))
  have lt: "length tiles = n * m" by (simp add: tiles_def stack_tiles_def ls)
  have "tiles ! k =
          (fst (tile_corner G (I ! k)), snd (tile_corner G (I ! k)),
           fst (tile_corner G (S ! k)), snd (tile_corner G (S ! k)),
           fst (tile_size G (I ! k)), snd (tile_size G (I ! k)))" if "k < n * m" for k
    using that ls lI S(2)
    by (simp add: tiles_def stack_tiles_def tile_corner_def tile_size_def
        curr_x_def curr_y_def old_x_def old_y_def shift_x_def shift_y_def)
  with res lt show ?thesis by blast
qed

subsection \<open>The parameters of RandomGridShuffleTorch\<close>

lemma rgs_get_params_valid:
  assumes "0 < n" "0 < m" "n \<le> H div 2" "m \<le> W div 2"
    and "randint 0 10000 g = Inr (seed, g')"
  shows "rgs_get_params RandomState (n, m) H W g =
     and_then (make_tiles (grid_partition H W (nat n) (nat m))
                 (permute_tiles (grid_partition H W (nat n) (nat m)) (nat n) (nat m)
                    (RandomState (nat seed), 0)))
       (\<lambda>tiles. Inr (tiles, g'))"
  using assms by (simp add: rgs_get_params_def and_then_def Let_def)

lemma distinct_indices: "distinct (concat (indices n m))"
proof -
  have "concat (indices n m) = List.product [0..<n] [0..<m]"
    by (simp add: indices_def product_concat_map)
  then show ?thesis by (simp add: distinct_product)
qed

lemma fold_copy_tile:
  assumes "\<And>a b c d h w. (a, b, c, d, h, w) \<in> set rs \<Longrightarrow>
      c \<le> fst q \<Longrightarrow> fst q < c + h \<Longrightarrow> d \<le> snd q \<Longrightarrow> snd q < d + w \<Longrightarrow>
      img (a + (fst q - c), b + (snd q - d)) = v"
    and "acc q = v
      \<or> (\<exists>(a, b, c, d, h, w)\<in>set rs. c \<le> fst q \<and> fst q < c + h \<and> d \<le> snd q \<and> snd q < d + w)"
  shows "fold (copy_tile img) rs acc q = v"
  using assms
proof (induction rs arbitrary: acc)
  case Nil
  then show ?case by simp
next
  case (Cons r rs)
  obtain a b c d h w where r: "r = (a, b, c, d, h, w)" by (cases r) auto
  show ?case
  proof (cases "c \<le> fst q \<and> fst q < c + h \<and> d \<le> snd q \<and> snd q < d + w")
    case True
    then have step: "copy_tile img r acc q = v"
      using Cons.prems(1)[of a b c d h w] by (cases q) (simp add: r copy_tile_def)
    have "fold (copy_tile img) rs (copy_tile img r acc) q = v"
    proof (rule Cons.IH)
      fix a b c d h w
      assume "(a, b, c, d, h, w) \<in> set rs" "c \<le> fst q" "fst q < c + h" "d \<le> snd q"
        "snd q < d + w"
      then show "img (a + (fst q - c), b + (snd q - d)) = v"
        using Cons.prems(1)[of a b c d h w] by simp
    next
      show "copy_tile img r acc q = v
        \<or> (\<exists>(a, b, c, d, h, w)\<in>set rs. c \<le> fst q \<and> fst q < c + h \<and> d \<le> snd q \<and> snd q < d + w)"
        using step by simp
    qed
    then show ?thesis by simp
  next
    case False
    then have "copy_tile img r acc q = acc q" by (cases q) (auto simp: r copy_tile_def)
    with Cons.prems(2) False
    have step: "copy_tile img r acc q = v
      \<or> (\<exists>(a, b, c, d, h, w)\<in>set rs. c \<le> fst q \<and> fst q < c + h \<and> d \<le> snd q \<and> snd q < d + w)"
      by (auto simp: r)
    have "fold (copy_tile img) rs (copy_tile img r acc) q = v"
    proof (rule Cons.IH)
      fix a b c d h w
      assume "(a, b, c, d, h, w) \<in> set rs" "c \<le> fst q" "fst q < c + h" "d \<le> snd q"
        "snd q < d + w"
      then show "img (a + (fst q - c), b + (snd q - d)) = v"
        using Cons.prems(1)[of a b c d h w] by simp
    next
      show "copy_tile img r acc q = v
        \<or> (\<exists>(a, b, c, d, h, w)\<in>set rs. c \<le> fst q \<and> fst q < c + h \<and> d \<le> snd q \<and> snd q < d + w)"
        by (rule step)
    qed
    then show ?thesis by simp
  qed
qed

lemma swap_tiles_relocates:
  fixes G :: grid
  assumes len: "length A = N" "length B = N" "length recs = N"
    and rec: "\<And>j. j < N \<Longrightarrow> recs ! j =
        (fst (tile_corner G (A ! j)), snd (tile_corner G (A ! j)),
         fst (tile_corner G (B ! j)), snd (tile_corner G (B ! j)),
         fst (tile_size G (A ! j)), snd (tile_size G (A ! j)))"
    and size: "\<And>j. j < N \<Longrightarrow> tile_size G (B ! j) = tile_size G (A ! j)"
    and dist: "distinct B"
    and disj: "\<And>t t' q. t \<in> set B \<Longrightarrow> t' \<in> set B \<Longrightarrow> in_tile G t q \<Longrightarrow> in_tile G t' q
        \<Longrightarrow> t = t'"
    and k: "k < N" and p: "in_tile G (A ! k) (y, x)"
  shows "swap_tiles_on_image img recs
      (y + (fst (tile_corner G (B ! k)) - fst (tile_corner G (A ! k))),
       x + (snd (tile_corner G (B ! k)) - snd (tile_corner G (A ! k)))) = img (y, x)"
proof -
  define q where "q = (y + (fst (tile_corner G (B ! k)) - fst (tile_corner G (A ! k))),
       x + (snd (tile_corner G (B ! k)) - snd (tile_corner G (A ! k))))"
  have dst: "in_tile G (B ! j) q' \<longleftrightarrow>
      fst (tile_corner G (B ! j)) \<le> fst q'
    \<and> fst q' < fst (tile_corner G (B ! j)) + fst (tile_size G (A ! j))
    \<and> snd (tile_corner G (B ! j)) \<le> snd q'
    \<and> snd q' < snd (tile_corner G (B ! j)) + snd (tile_size G (A ! j))" if "j < N" for j q'
    unfolding size[OF that, symmetric]
    by (simp add: in_tile_def tile_corner_def tile_size_def Let_def)
  have qk: "in_tile G (B ! k) q"
    unfolding dst[OF k] using p
    by (simp add: q_def in_tile_def tile_corner_def tile_size_def Let_def)
  have "fold (copy_tile img) recs img q = img (y, x)"
  proof (rule fold_copy_tile)
    fix a b c d h w
    assume r: "(a, b, c, d, h, w) \<in> set recs"
      and in_dst: "c \<le> fst q" "fst q < c + h" "d \<le> snd q" "snd q < d + w"
    from r obtain j where j: "j < N" "recs ! j = (a, b, c, d, h, w)"
      using len(3) by (auto simp: in_set_conv_nth)
    from j rec[OF j(1)] have e: "a = fst (tile_corner G (A ! j))" "b = snd (tile_corner G (A ! j))"
      "c = fst (tile_corner G (B ! j))" "d = snd (tile_corner G (B ! j))"
      "h = fst (tile_size G (A ! j))" "w = snd (tile_size G (A ! j))" by simp_all
    have "in_tile G (B ! j) q" unfolding dst[OF j(1)] using in_dst by (simp add: e)
    with qk have "B ! j = B ! k" using j(1) k len(2) by (intro disj) simp_all
    then have "j = k" using dist j(1) k len(2) by (simp add: nth_eq_iff_index_eq)
    then show "img (a + (fst q - c), b + (snd q - d)) = img (y, x)"
      by (simp add: e q_def)
  next
    have mem: "recs ! k \<in> set recs" using k len(3) by simp
    have c: "case recs ! k of (a, b, c, d, h, w) \<Rightarrow>
        c \<le> fst q \<and> fst q < c + h \<and> d \<le> snd q \<and> snd q < d + w"
      using qk unfolding dst[OF k] by (simp add: rec[OF k] case_prod_unfold)
    show "img q = img (y, x)
      \<or> (\<exists>(a, b, c, d, h, w)\<in>set recs. c \<le> fst q \<and> fst q < c + h \<and> d \<le> snd q \<and> snd q < d + w)"
      by (rule disjI2, rule bexI[of _ "recs ! k"], rule c, rule mem)
  qed
  then show ?thesis by (simp add: swap_tiles_on_image_def q_def)
qed

lemma pixel_tile_unique:
  assumes n: "0 < n" "int n \<le> H div 2" and m: "0 < m" "int m \<le> W div 2"
    and H: "H < 2 ^ 53" and W: "W < 2 ^ 53"
    and t: "fst t < n" "snd t < m" "in_tile (grid_partition H W n m) t p"
    and t': "fst t' < n" "snd t' < m" "in_tile (grid_partition H W n m) t' p"
  shows "t = t'"
proof -
  define hs where "hs = linspace 0 H (n + 1)"
  define ws where "ws = linspace 0 W (m + 1)"
  have nH: "int n * 2 \<le> H" and mW: "int m * 2 \<le> W" using n(2) m(2) by linarith+
  note hb = linspace_boundaries[OF n(1) nH H, folded hs_def]
  note wb = linspace_boundaries[OF m(1) mW W, folded ws_def]
  note tile = in_tile_iff[OF hb(1)[unfolded hs_def] wb(1)[unfolded ws_def],
      folded hs_def ws_def]
  have b: "hs ! fst t \<le> fst p" "fst p < hs ! (fst t + 1)" "ws ! snd t \<le> snd p"
    "snd p < ws ! (snd t + 1)"
    using t by (simp_all add: tile)
  have b': "hs ! fst t' \<le> fst p" "fst p < hs ! (fst t' + 1)" "ws ! snd t' \<le> snd p"
    "snd p < ws ! (snd t' + 1)"
    using t' by (simp_all add: tile)
  have "hs ! 0 \<le> hs ! fst t" "hs ! (fst t + 1) \<le> hs ! n"
    using t hb(1,4) by (simp_all add: sorted_nth_mono)
  with b have "hs ! 0 \<le> fst p" "fst p < hs ! n" by linarith+
  then have "\<exists>!i. i < n \<and> hs ! i \<le> fst p \<and> fst p < hs ! (i + 1)"
    using hb by (intro unique_interval) simp_all
  with b b' t(1) t'(1) have 1: "fst t = fst t'" by blast
  have "ws ! 0 \<le> ws ! snd t" "ws ! (snd t + 1) \<le> ws ! m"
    using t wb(1,4) by (simp_all add: sorted_nth_mono)
  with b have "ws ! 0 \<le> snd p" "snd p < ws ! m" by linarith+
  then have "\<exists>!i. i < m \<and> ws ! i \<le> snd p \<and> snd p < ws ! (i + 1)"
    using wb by (intro unique_interval) simp_all
  with b b' t(2) t'(2) have 2: "snd t = snd t'" by blast
  from 1 2 show ?thesis by (simp add: prod_eq_iff)
qed

lemma pixel_tile_exists:
  assumes n: "0 < n" "int n \<le> H div 2" and m: "0 < m" "int m \<le> W div 2"
    and H: "H < 2 ^ 53" and W: "W < 2 ^ 53"
    and p: "0 \<le> y" "y < H" "0 \<le> x" "x < W"
  shows "\<exists>t. fst t < n \<and> snd t < m \<and> in_tile (grid_partition H W n m) t (y, x)"
proof -
  define hs where "hs = linspace 0 H (n + 1)"
  define ws where "ws = linspace 0 W (m + 1)"
  have nH: "int n * 2 \<le> H" and mW: "int m * 2 \<le> W" using n(2) m(2) by linarith+
  note hb = linspace_boundaries[OF n(1) nH H, folded hs_def]
  note wb = linspace_boundaries[OF m(1) mW W, folded ws_def]
  note tile = in_tile_iff[OF hb(1)[unfolded hs_def] wb(1)[unfolded ws_def],
      folded hs_def ws_def]
  from p hb have "\<exists>!i. i < n \<and> hs ! i \<le> y \<and> y < hs ! (i + 1)"
    by (intro unique_interval) simp_all
  then obtain i where i: "i < n" "hs ! i \<le> y" "y < hs ! (i + 1)" by blast
  from p wb have "\<exists>!j. j < m \<and> ws ! j \<le> x \<and> x < ws ! (j + 1)"
    by (intro unique_interval) simp_all
  then obtain j where j: "j < m" "ws ! j \<le> x" "x < ws ! (j + 1)" by blast
  have "fst (i, j) < n \<and> snd (i, j) < m \<and> in_tile (grid_partition H W n m) (i, j) (y, x)"
    using i j by (simp add: tile)
  then show ?thesis by blast
qed

text \<open>
  C8. For a valid grid configuration the call returns one record per tile, in row-major
  order. The record of the tile \<open>I ! k\<close> holds the top-left pixel of this tile, the
  top-left pixel of the tile \<open>S ! k\<close> that the permutation of its size group assigns to it,
  and the height and width of the tile. The apply stage is modelled from the spec. With
  the record read as \<open>(src_row, src_col, dst_row, dst_col, tile_height, tile_width)\<close>, the
  content of every pixel of the source tile is found in the new image at the pixel offset
  \<open>(dst_row - src_row, dst_col - src_col)\<close>, the top-left pixel of the destination tile minus
  the top-left pixel of the source tile. The names \<^verbatim>\<open>curr\<close> and \<^verbatim>\<open>old\<close> of the source
  suggest the converse roles of the two positions; read so (\<open>curr_old\<close>), the records
  relocate the content of every tile by the top-left pixel of the destination minus the
  top-left pixel of the source as well. (Image sizes are below \<open>2 ^ 53\<close>, which a float
  holds exactly.)
\<close>

theorem rgs_get_params_records:
  assumes valid: "0 < n" "0 < m" "n \<le> H div 2" "m \<le> W div 2"
  shows "\<exists>seed g' tiles.
      randint 0 10000 g = Inr (seed, g')
    \<and> rgs_get_params RandomState (n, m) H W g = Inr (tiles, g')
    \<and> (let G = grid_partition H W (nat n) (nat m);
            S = permute_tiles G (nat n) (nat m) (RandomState (nat seed), 0);
            I = concat (indices (nat n) (nat m))
        in length tiles = nat n * nat m
         \<and> mset S = mset I
         \<and> (\<forall>k<nat n * nat m.
               tile_size G (S ! k) = tile_size G (I ! k)
             \<and> tiles ! k =
                 (fst (tile_corner G (I ! k)), snd (tile_corner G (I ! k)),
                  fst (tile_corner G (S ! k)), snd (tile_corner G (S ! k)),
                  fst (tile_size G (I ! k)), snd (tile_size G (I ! k)))
             \<and> (H < 2 ^ 53 \<and> W < 2 ^ 53 \<longrightarrow>
                  (case tiles ! k of (src_row, src_col, dst_row, dst_col, h, w) \<Rightarrow>
                     \<forall>y x. src_row \<le> y \<and> y < src_row + h \<and> src_col \<le> x \<and> x < src_col + w \<longrightarrow>
                       swap_tiles_on_image img tiles
                         (y + (dst_row - src_row), x + (dst_col - src_col)) = img (y, x))
                \<and> (case curr_old (tiles ! k) of (src_row, src_col, dst_row, dst_col, h, w) \<Rightarrow>
                     \<forall>y x. src_row \<le> y \<and> y < src_row + h \<and> src_col \<le> x \<and> x < src_col + w \<longrightarrow>
                       swap_tiles_on_image img (map curr_old tiles)
                         (y + (dst_row - src_row), x + (dst_col - src_col)) = img (y, x)))))"
proof -
  from randint_range[of 0 10000 g] obtain seed g'
    where seed: "randint 0 10000 g = Inr (seed, g')" by auto
  define G where "G = grid_partition H W (nat n) (nat m)"
  define S where "S = permute_tiles G (nat n) (nat m) (RandomState (nat seed), 0)"
  define I where "I = concat (indices (nat n) (nat m))"
  define N where "N = nat n * nat m"
  note inv = permute_tiles_invariant[of H W "nat n" "nat m" "(RandomState (nat seed), 0)",
      folded G_def, folded S_def I_def]
  have lI: "length I = N" by (simp add: I_def N_def length_indices)
  have lS: "length S = N" using mset_eq_length[OF inv(2)] lI by simp
  have sub: "set S \<subseteq> set I" using mset_eq_setD[OF inv(2)] by simp
  have setI: "set I = {t. fst t < nat n \<and> snd t < nat m}" unfolding I_def by (rule set_indices)
  have setS: "set S = {t. fst t < nat n \<and> snd t < nat m}"
    using mset_eq_setD[OF inv(2)] setI by simp
  have dI: "distinct I" by (simp add: I_def distinct_indices)
  have dS: "distinct S" using mset_eq_imp_distinct_iff[OF inv(2)] dI by simp
  from make_tiles_records[OF sub[unfolded I_def] lS[unfolded N_def], of H W,
      folded G_def I_def, folded N_def]
  obtain tiles where tiles: "make_tiles G S = Inr tiles" "length tiles = N"
    and rec: "\<And>k. k < N \<Longrightarrow> tiles ! k =
          (fst (tile_corner G (I ! k)), snd (tile_corner G (I ! k)),
           fst (tile_corner G (S ! k)), snd (tile_corner G (S ! k)),
           fst (tile_size G (I ! k)), snd (tile_size G (I ! k)))"
    by blast
  have res: "rgs_get_params RandomState (n, m) H W g = Inr (tiles, g')"
    using rgs_get_params_valid[OF valid seed, of RandomState] tiles(1)
    by (simp add: G_def S_def and_then_def)
  have size: "tile_size G (S ! k) = tile_size G (I ! k)" if "k < N" for k
    using that lS lI nth_map[of k S "tile_size G"] nth_map[of k I "tile_size G"] inv(1) by simp
  have rec': "map curr_old tiles ! k =
          (fst (tile_corner G (S ! k)), snd (tile_corner G (S ! k)),
           fst (tile_corner G (I ! k)), snd (tile_corner G (I ! k)),
           fst (tile_size G (S ! k)), snd (tile_size G (S ! k)))" if "k < N" for k
    using that tiles(2) by (simp add: rec curr_old_def size)
  have n': "0 < nat n" "int (nat n) \<le> H div 2" and m': "0 < nat m" "int (nat m) \<le> W div 2"
    using valid by simp_all
  have disj: "t = t'"
    if "H < 2 ^ 53" "W < 2 ^ 53" "fst t < nat n" "snd t < nat m" "in_tile G t q"
      "fst t' < nat n" "snd t' < nat m" "in_tile G t' q" for t t' q
    using that unfolding G_def by (intro pixel_tile_unique[OF n' m', of t q t']) simp_all
  have src: "in_tile G t (y, x) \<longleftrightarrow>
      fst (tile_corner G t) \<le> y \<and> y < fst (tile_corner G t) + fst (tile_size G t)
    \<and> snd (tile_corner G t) \<le> x \<and> x < snd (tile_corner G t) + snd (tile_size G t)" for t y x
    by (simp add: in_tile_def tile_corner_def tile_size_def Let_def)
  have r1: "case tiles ! k of (src_row, src_col, dst_row, dst_col, h, w) \<Rightarrow>
       \<forall>y x. src_row \<le> y \<and> y < src_row + h \<and> src_col \<le> x \<and> x < src_col + w \<longrightarrow>
         swap_tiles_on_image img tiles
           (y + (dst_row - src_row), x + (dst_col - src_col)) = img (y, x)"
    if k: "k < N" and HW: "H < 2 ^ 53 \<and> W < 2 ^ 53" for k
  proof -
    have "swap_tiles_on_image img tiles
      (y + (fst (tile_corner G (S ! k)) - fst (tile_corner G (I ! k))),
       x + (snd (tile_corner G (S ! k)) - snd (tile_corner G (I ! k)))) = img (y, x)"
      if p: "in_tile G (I ! k) (y, x)" for y x
    proof (rule swap_tiles_relocates[OF lI lS tiles(2) rec size dS _ k p])
      fix t t' q
      assume "t \<in> set S" "t' \<in> set S" "in_tile G t q" "in_tile G t' q"
      then show "t = t'" using HW unfolding setS by (intro disj[of t q t']) simp_all
    qed
    then show ?thesis unfolding rec[OF k] by (simp add: src case_prod_unfold)
  qed
  have r2: "case curr_old (tiles ! k) of (src_row, src_col, dst_row, dst_col, h, w) \<Rightarrow>
       \<forall>y x. src_row \<le> y \<and> y < src_row + h \<and> src_col \<le> x \<and> x < src_col + w \<longrightarrow>
         swap_tiles_on_image img (map curr_old tiles)
           (y + (dst_row - src_row), x + (dst_col - src_col)) = img (y, x)"
    if k: "k < N" and HW: "H < 2 ^ 53 \<and> W < 2 ^ 53" for k
  proof -
    have lt: "length (map curr_old tiles) = N" using tiles(2) by simp
    have "swap_tiles_on_image img (map curr_old tiles)
      (y + (fst (tile_corner G (I ! k)) - fst (tile_corner G (S ! k))),
       x + (snd (tile_corner G (I ! k)) - snd (tile_corner G (S ! k)))) = img (y, x)"
      if p: "in_tile G (S ! k) (y, x)" for y x
    proof (rule swap_tiles_relocates[OF lS lI lt rec' size[symmetric] dI _ k p])
      fix t t' q
      assume "t \<in> set I" "t' \<in> set I" "in_tile G t q" "in_tile G t' q"
      then show "t = t'" using HW unfolding setI by (intro disj[of t q t']) simp_all
    qed
    moreover have "curr_old (tiles ! k) = map curr_old tiles ! k" using k tiles(2) by simp
    ultimately show ?thesis unfolding rec'[OF k] by (simp add: src case_prod_unfold)
  qed
  have body: "length tiles = N
         \<and> mset S = mset I
         \<and> (\<forall>k<N.
               tile_size G (S ! k) = tile_size G (I ! k)
             \<and> tiles ! k =
                 (fst (tile_corner G (I ! k)), snd (tile_corner G (I ! k)),
                  fst (tile_corner G (S ! k)), snd (tile_corner G (S ! k)),
                  fst (tile_size G (I ! k)), snd (tile_size G (I ! k)))
             \<and> (H < 2 ^ 53 \<and> W < 2 ^ 53 \<longrightarrow>
                  (case tiles ! k of (src_row, src_col, dst_row, dst_col, h, w) \<Rightarrow>
                     \<forall>y x. src_row \<le> y \<and> y < src_row + h \<and> src_col \<le> x \<and> x < src_col + w \<longrightarrow>
                       swap_tiles_on_image img tiles
                         (y + (dst_row - src_row), x + (dst_col - src_col)) = img (y, x))
                \<and> (case curr_old (tiles ! k) of (src_row, src_col, dst_row, dst_col, h, w) \<Rightarrow>
                     \<forall>y x. src_row \<le> y \<and> y < src_row + h \<and> src_col \<le> x \<and> x < src_col + w \<longrightarrow>
                       swap_tiles_on_image img (map curr_old tiles)
                         (y + (dst_row - src_row), x + (dst_col - src_col)) = img (y, x))))"
    using tiles(2) inv(2) size rec r1 r2 by (intro conjI allI impI) assumption+
  have "randint 0 10000 g = Inr (seed, g')
    \<and> rgs_get_params RandomState (n, m) H W g = Inr (tiles, g')
    \<and> (let G = grid_partition H W (nat n) (nat m);
            S = permute_tiles G (nat n) (nat m) (RandomState (nat seed), 0);
            I = concat (indices (nat n) (nat m))
        in length tiles = nat n * nat m
         \<and> mset S = mset I
         \<and> (\<forall>k<nat n * nat m.
               tile_size G (S ! k) = tile_size G (I ! k)
             \<and> tiles ! k =
                 (fst (tile_corner G (I ! k)), snd (tile_corner G (I ! k)),
                  fst (tile_corner G (S ! k)), snd (tile_corner G (S ! k)),
                  fst (tile_size G (I ! k)), snd (tile_size G (I ! k)))
             \<and> (H < 2 ^ 53 \<and> W < 2 ^ 53 \<longrightarrow>
                  (case tiles ! k of (src_row, src_col, dst_row, dst_col, h, w) \<Rightarrow>
                     \<forall>y x. src_row \<le> y \<and> y < src_row + h \<and> src_col \<le> x \<and> x < src_col + w \<longrightarrow>
                       swap_tiles_on_image img tiles
                         (y + (dst_row - src_row), x + (dst_col - src_col)) = img (y, x))
                \<and> (case curr_old (tiles ! k) of (src_row, src_col, dst_row, dst_col, h, w) \<Rightarrow>
                     \<forall>y x. src_row \<le> y \<and> y < src_row + h \<and> src_col \<le> x \<and> x < src_col + w \<longrightarrow>
                       swap_tiles_on_image img (map curr_old tiles)
                         (y + (dst_row - src_row), x + (dst_col - src_col)) = img (y, x)))))"
    unfolding Let_def G_def[symmetric] unfolding S_def[symmetric] I_def[symmetric]
      N_def[symmetric]
    by (rule conjI[OF seed], rule conjI[OF res], rule body)
  then show ?thesis by blast
qed


theorem rgs_get_params_records_witness:
  "\<exists>seed g' tiles.
      randint 0 10000 example_rand = Inr (seed, g')
    \<and> rgs_get_params example_generator (2, 2) 5 4 example_rand = Inr (tiles, g')
    \<and> length tiles = 4
    \<and> (\<exists>q. swap_tiles_on_image (\<lambda>p. p) tiles q = (0, 0))
    \<and> (\<exists>q. swap_tiles_on_image (\<lambda>p. p) (map curr_old tiles) q = (0, 0))"
proof -
  define G where "G = grid_partition 5 4 (nat 2) (nat 2)"
  define I where "I = concat (indices (nat 2) (nat 2))"
  have v: "(0 :: int) < 2" "(2 :: int) \<le> 5 div 2" "(2 :: int) \<le> 4 div 2" by simp_all
  from rgs_get_params_records[OF v(1) v(1) v(2) v(3), where g = example_rand
      and RandomState = example_generator and img = "\<lambda>p. p"]
  obtain seed g' tiles where r: "randint 0 10000 example_rand = Inr (seed, g')"
    "rgs_get_params example_generator (2, 2) 5 4 example_rand = Inr (tiles, g')"
    "length tiles = nat 2 * nat 2"
    and S: "mset (permute_tiles G (nat 2) (nat 2) (example_generator (nat seed), 0)) = mset I"
    and all: "\<forall>k<nat 2 * nat 2.
      tile_size G (permute_tiles G (nat 2) (nat 2) (example_generator (nat seed), 0) ! k)
        = tile_size G (I ! k)
      \<and> tiles ! k =
         (fst (tile_corner G (I ! k)), snd (tile_corner G (I ! k)),
          fst (tile_corner G (permute_tiles G (nat 2) (nat 2) (example_generator (nat seed), 0) ! k)),
          snd (tile_corner G (permute_tiles G (nat 2) (nat 2) (example_generator (nat seed), 0) ! k)),
          fst (tile_size G (I ! k)), snd (tile_size G (I ! k)))
      \<and> ((5 :: int) < 2 ^ 53 \<and> (4 :: int) < 2 ^ 53 \<longrightarrow>
          (case tiles ! k of (src_row, src_col, dst_row, dst_col, h, w) \<Rightarrow>
             \<forall>y x. src_row \<le> y \<and> y < src_row + h \<and> src_col \<le> x \<and> x < src_col + w \<longrightarrow>
               swap_tiles_on_image (\<lambda>p. p) tiles
                 (y + (dst_row - src_row), x + (dst_col - src_col)) = (y, x))
        \<and> (case curr_old (tiles ! k) of (src_row, src_col, dst_row, dst_col, h, w) \<Rightarrow>
             \<forall>y x. src_row \<le> y \<and> y < src_row + h \<and> src_col \<le> x \<and> x < src_col + w \<longrightarrow>
               swap_tiles_on_image (\<lambda>p. p) (map curr_old tiles)
                 (y + (dst_row - src_row), x + (dst_col - src_col)) = (y, x)))"
    unfolding Let_def G_def[symmetric] I_def[symmetric] by blast
  have guard: "(5 :: int) < 2 ^ 53 \<and> (4 :: int) < 2 ^ 53" by simp
  have k: "tiles ! k =
         (fst (tile_corner G (I ! k)), snd (tile_corner G (I ! k)),
          fst (tile_corner G (permute_tiles G (nat 2) (nat 2) (example_generator (nat seed), 0) ! k)),
          snd (tile_corner G (permute_tiles G (nat 2) (nat 2) (example_generator (nat seed), 0) ! k)),
          fst (tile_size G (I ! k)), snd (tile_size G (I ! k)))
      \<and> (case tiles ! k of (src_row, src_col, dst_row, dst_col, h, w) \<Rightarrow>
             \<forall>y x. src_row \<le> y \<and> y < src_row + h \<and> src_col \<le> x \<and> x < src_col + w \<longrightarrow>
               swap_tiles_on_image (\<lambda>p. p) tiles
                 (y + (dst_row - src_row), x + (dst_col - src_col)) = (y, x))
      \<and> (case curr_old (tiles ! k) of (src_row, src_col, dst_row, dst_col, h, w) \<Rightarrow>
             \<forall>y x. src_row \<le> y \<and> y < src_row + h \<and> src_col \<le> x \<and> x < src_col + w \<longrightarrow>
               swap_tiles_on_image (\<lambda>p. p) (map curr_old tiles)
                 (y + (dst_row - src_row), x + (dst_col - src_col)) = (y, x))"
    if kk: "k < nat 2 * nat 2" for k
    by (rule conjI[OF conjunct1[OF conjunct2[OF all[rule_format, OF kk]]]
          mp[OF conjunct2[OF conjunct2[OF all[rule_format, OF kk]]] guard]])
  define S where "S = permute_tiles G (nat 2) (nat 2) (example_generator (nat seed), 0)"
  have src: "in_tile G t (y, x) \<longleftrightarrow>
      fst (tile_corner G t) \<le> y \<and> y < fst (tile_corner G t) + fst (tile_size G t)
    \<and> snd (tile_corner G t) \<le> x \<and> x < snd (tile_corner G t) + snd (tile_size G t)" for t y x
    by (simp add: in_tile_def tile_corner_def tile_size_def Let_def)
  have setI: "set I = {t. fst t < nat 2 \<and> snd t < nat 2}" unfolding I_def by (rule set_indices)
  have setS: "set S = set I" using mset_eq_setD[OF S] by (simp add: S_def)
  have lI: "length I = nat 2 * nat 2" by (simp add: I_def length_indices)
  have lS: "length S = nat 2 * nat 2" using mset_eq_length[OF S] lI by (simp add: S_def)
  from pixel_tile_exists[of "nat 2" 5 "nat 2" 4 0 0]
  obtain t where t: "t \<in> set I" "in_tile G t (0, 0)" unfolding setI G_def by auto
  from t(1) obtain i where i: "i < nat 2 * nat 2" "I ! i = t"
    using lI by (auto simp: in_set_conv_nth)
  have "t \<in> set S" using t(1) setS by simp
  then obtain j where j: "j < nat 2 * nat 2" "S ! j = t"
    using lS by (auto simp: in_set_conv_nth)
  have size: "tile_size G (S ! j) = tile_size G (I ! j)"
    using permute_tiles_invariant[of 5 4 "nat 2" "nat 2" "(example_generator (nat seed), 0)",
        folded G_def, folded S_def I_def] j(1) lS lI
      nth_map[of j S "tile_size G"] nth_map[of j I "tile_size G"] by simp
  have 1: "\<exists>q. swap_tiles_on_image (\<lambda>p. p) tiles q = (0, 0)"
  proof -
    note ki = k[OF i(1), folded S_def]
    have c: "\<forall>y x. fst (tile_corner G (I ! i)) \<le> y
          \<and> y < fst (tile_corner G (I ! i)) + fst (tile_size G (I ! i))
          \<and> snd (tile_corner G (I ! i)) \<le> x
          \<and> x < snd (tile_corner G (I ! i)) + snd (tile_size G (I ! i)) \<longrightarrow>
        swap_tiles_on_image (\<lambda>p. p) tiles
          (y + (fst (tile_corner G (S ! i)) - fst (tile_corner G (I ! i))),
           x + (snd (tile_corner G (S ! i)) - snd (tile_corner G (I ! i)))) = (y, x)"
      using conjunct1[OF conjunct2[OF ki]] unfolding conjunct1[OF ki] by (simp only: prod.case)
    have in0: "in_tile G (I ! i) (0, 0)" using t(2) i(2) by simp
    show ?thesis using c[rule_format, OF in0[unfolded src]] by (rule exI)
  qed
  have 2: "\<exists>q. swap_tiles_on_image (\<lambda>p. p) (map curr_old tiles) q = (0, 0)"
  proof -
    note kj = k[OF j(1), folded S_def]
    have co: "curr_old (tiles ! j) =
        (fst (tile_corner G (S ! j)), snd (tile_corner G (S ! j)),
         fst (tile_corner G (I ! j)), snd (tile_corner G (I ! j)),
         fst (tile_size G (S ! j)), snd (tile_size G (S ! j)))"
      unfolding conjunct1[OF kj] by (simp add: curr_old_def size)
    have c: "\<forall>y x. fst (tile_corner G (S ! j)) \<le> y
          \<and> y < fst (tile_corner G (S ! j)) + fst (tile_size G (S ! j))
          \<and> snd (tile_corner G (S ! j)) \<le> x
          \<and> x < snd (tile_corner G (S ! j)) + snd (tile_size G (S ! j)) \<longrightarrow>
        swap_tiles_on_image (\<lambda>p. p) (map curr_old tiles)
          (y + (fst (tile_corner G (I ! j)) - fst (tile_corner G (S ! j))),
           x + (snd (tile_corner G (I ! j)) - snd (tile_corner G (S ! j)))) = (y, x)"
      using conjunct2[OF conjunct2[OF kj]] unfolding co by (simp only: prod.case)
    have in0: "in_tile G (S ! j) (0, 0)" using t(2) j(2) by simp
    show ?thesis using c[rule_format, OF in0[unfolded src]] by (rule exI)
  qed
  show ?thesis using r 1 2 by auto
qed

text \<open>
  C3. The tiles depend on the state of the module \<open>random\<close> through the seed only: two
  calls for the same grid and image size that draw the same seed return the same tiles.
\<close>

theorem rgs_get_params_deterministic:
  assumes "randint 0 10000 g1 = Inr (seed, g1')" and "randint 0 10000 g2 = Inr (seed, g2')"
  shows "map_sum id fst (rgs_get_params RandomState self_grid H W g1)
       = map_sum id fst (rgs_get_params RandomState self_grid H W g2)"
  using assms
  by (cases self_grid) (simp add: rgs_get_params_def and_then_def Let_def split: sum.splits)

theorem rgs_get_params_deterministic_witness:
  "fst example_rand 0 \<noteq> fst example_rand2 0
   \<and> map_sum id fst (rgs_get_params example_generator (2, 2) 5 4 example_rand)
     = map_sum id fst (rgs_get_params example_generator (2, 2) 5 4 example_rand2)"
proof -
  have 1: "randint 0 10000 example_rand = Inr (1, (fst example_rand, 1))"
    by (simp add: randint_def randbelow_def example_rand_def)
  have 2: "randint 0 10000 example_rand2 = Inr (1, (fst example_rand2, 1))"
    by (simp add: randint_def randbelow_def example_rand2_def)
  show ?thesis
    using rgs_get_params_deterministic[OF 1 2, of example_generator "(2, 2)" 5 4]
    by (simp add: example_rand_def example_rand2_def)
qed

section \<open>The configuration errors\<close>

lemma randint_error: "randint a b g = Inl e \<Longrightarrow> e = ValueError EmptyRange"
  by (simp add: randint_def split: if_splits prod.splits)

lemma choice_error: "choice xs g = Inl e \<Longrightarrow> e = IndexError"
  by (simp add: choice_def split: if_splits prod.splits)

lemma and_then_Inl:
  "and_then r f = Inl e \<Longrightarrow> r = Inl e \<or> (\<exists>v. r = Inr v \<and> f v = Inl e)"
  by (cases r) (simp_all add: and_then_def)

lemma cnem_no_configuration_error:
  assumes shape: "mask_shape msk = (mh, mw)"
    and fits: "self_height self \<le> int mh" "self_width self \<le> int mw"
    and err: "cnem_get_params dt self msk g = Inl e"
  shows "\<not> invalid_configuration e"
proof -
  have "e = ValueError EmptyRange \<or> e = IndexError"
  proof (cases "mask_sum_is_zero dt (filtered_mask dt self msk)")
    case True
    with err shape fits have "and_then (randint 0 (int mw - self_width self) g) (\<lambda>(x_min, g).
              and_then (randint 0 (int mh - self_height self) g) (\<lambda>(y_min, g).
              Inr (crop_at self x_min y_min, g))) = Inl e"
      by (simp add: cnem_get_params_def)
    then show ?thesis
      by (auto dest!: and_then_Inl dest: randint_error)
  next
    case False
    with err shape fits have "and_then (choice (non_zero_yx dt (filtered_mask dt self msk)) g)
          (\<lambda>((y, x), g).
              and_then (randint 0 (self_width self - 1) g) (\<lambda>(dx, g).
              and_then (randint 0 (self_height self - 1) g) (\<lambda>(dy, g).
              Inr (crop_at self
                     (clamp (int x - dx) 0 (int mw - self_width self))
                     (clamp (int y - dy) 0 (int mh - self_height self)), g)))) = Inl e"
      by (simp add: cnem_get_params_def)
    then show ?thesis
      by (auto dest!: and_then_Inl dest: randint_error choice_error)
  qed
  then show ?thesis by auto
qed

lemma cnem_returns:
  assumes shape: "mask_shape msk = (mh, mw)"
    and h: "0 < self_height self" "self_height self \<le> int mh"
    and w: "0 < self_width self" "self_width self \<le> int mw"
    and found: "mask_sum_is_zero dt (filtered_mask dt self msk)
      \<or> non_zero_yx dt (filtered_mask dt self msk) \<noteq> []"
  shows "\<exists>r g'. cnem_get_params dt self msk g = Inr (r, g')"
proof (cases "mask_sum_is_zero dt (filtered_mask dt self msk)")
  case True
  from randint_range[of 0 "int mw - self_width self" g] w(2) obtain x g1
    where x: "randint 0 (int mw - self_width self) g = Inr (x, g1)" by auto
  from randint_range[of 0 "int mh - self_height self" g1] h(2) obtain y g2
    where y: "randint 0 (int mh - self_height self) g1 = Inr (y, g2)" by auto
  show ?thesis using True h(2) w(2) x y
    by (simp add: cnem_get_params_def shape and_then_def)
next
  case False
  with found have "non_zero_yx dt (filtered_mask dt self msk) \<noteq> []" by simp
  from choice_member[OF this, of g] obtain y x g1
    where ch: "choice (non_zero_yx dt (filtered_mask dt self msk)) g = Inr ((y, x), g1)" by auto
  from randint_range[of 0 "self_width self - 1" g1] w(1) obtain dx g2
    where rx: "randint 0 (self_width self - 1) g1 = Inr (dx, g2)" by auto
  from randint_range[of 0 "self_height self - 1" g2] h(1) obtain dy g3
    where ry: "randint 0 (self_height self - 1) g2 = Inr (dy, g3)" by auto
  show ?thesis using False h(2) w(2) ch rx ry
    by (simp add: cnem_get_params_def shape and_then_def)
qed

lemma cnem_configuration_error:
  assumes "mask_shape msk = (mh, mw)" "int mh < self_height self \<or> int mw < self_width self"
  shows "cnem_get_params dt self msk g
    = Inl (ValueError (CropLargerThanImage (self_height self) (self_width self) (int mh) (int mw)))"
  using assms by (auto simp: cnem_get_params_def)

lemma cnem_error_iff:
  assumes shape: "mask_shape msk = (mh, mw)"
    and pos: "0 < self_height self" "0 < self_width self"
    and found: "mask_sum_is_zero dt (filtered_mask dt self msk)
      \<or> non_zero_yx dt (filtered_mask dt self msk) \<noteq> []"
  shows "(\<exists>e. cnem_get_params dt self msk g = Inl e)
    \<longleftrightarrow> int mh < self_height self \<or> int mw < self_width self"
proof
  assume err: "\<exists>e. cnem_get_params dt self msk g = Inl e"
  show "int mh < self_height self \<or> int mw < self_width self"
  proof (rule ccontr)
    assume "\<not> (int mh < self_height self \<or> int mw < self_width self)"
    then have "self_height self \<le> int mh" "self_width self \<le> int mw" by simp_all
    with cnem_returns[OF shape _ _ _ _ found, of g] pos err show False by auto
  qed
next
  assume "int mh < self_height self \<or> int mw < self_width self"
  from cnem_configuration_error[OF shape this, of dt g]
  show "\<exists>e. cnem_get_params dt self msk g = Inl e" by simp
qed

lemma rgs_returns:
  assumes "0 < n" "0 < m" "n \<le> H div 2" "m \<le> W div 2"
  shows "\<exists>tiles g'. rgs_get_params RandomState (n, m) H W g = Inr (tiles, g')"
proof -
  from randint_range[of 0 10000 g] obtain seed g'
    where seed: "randint 0 10000 g = Inr (seed, g')" by auto
  define G where "G = grid_partition H W (nat n) (nat m)"
  define S where "S = permute_tiles G (nat n) (nat m) (RandomState (nat seed), 0)"
  note inv = permute_tiles_invariant[of H W "nat n" "nat m" "(RandomState (nat seed), 0)",
      folded G_def, folded S_def]
  have lS: "length S = nat n * nat m" using mset_eq_length[OF inv(2)] by (simp add: length_indices)
  have sub: "set S \<subseteq> set (concat (indices (nat n) (nat m)))" using mset_eq_setD[OF inv(2)] by simp
  from make_tiles_records[OF sub lS, of H W, folded G_def]
  obtain tiles where "make_tiles G S = Inr tiles" by blast
  then show ?thesis
    using rgs_get_params_valid[OF assms seed, of RandomState]
    by (simp add: G_def S_def and_then_def)
qed

lemma half_less_iff: "(of_int H / 2 < (of_int n :: rat)) \<longleftrightarrow> H div 2 < n"
proof -
  have "(of_int H / 2 < (of_int n :: rat)) \<longleftrightarrow> (of_int H :: rat) < of_int (2 * n)"
    by (simp add: field_simps)
  also have "\<dots> \<longleftrightarrow> H < 2 * n" by (simp only: of_int_less_iff)
  also have "\<dots> \<longleftrightarrow> H div 2 < n" by linarith
  finally show ?thesis .
qed

text \<open>
  C6. \<open>cnem_get_params\<close> raises a configuration error if and only if the configured crop
  height exceeds the mask height or the configured crop width exceeds the mask width,
  whatever the dtype of the mask. For a positive crop size it raises no other error either:
  for every uint8 mask, for every int64 mask, and for a mask of any dtype whose sum is zero
  or in which \<^verbatim>\<open>torch.nonzero\<close> finds an element. \<open>rgs_get_params\<close> raises if
  and only if \<open>n \<le> 0\<close> or \<open>m \<le> 0\<close> or \<open>n\<close> exceeds half the height or \<open>m\<close> exceeds half the
  width, and every error it raises is a configuration error. An error is the whole result
  of the call: no parameters are returned with it.
\<close>

theorem invalid_configuration_iff:
  fixes msk8 :: "8 word mask" and msk64 :: "64 word mask"
  assumes shape: "mask_shape msk = (mh, mw)"
  shows "((\<exists>e. cnem_get_params dt self msk g = Inl e \<and> invalid_configuration e)
          \<longleftrightarrow> int mh < self_height self \<or> int mw < self_width self)
    \<and> (0 < self_height self \<and> 0 < self_width self
          \<and> (mask_sum_is_zero dt (filtered_mask dt self msk)
              \<or> non_zero_yx dt (filtered_mask dt self msk) \<noteq> []) \<longrightarrow>
          ((\<exists>e. cnem_get_params dt self msk g = Inl e)
            \<longleftrightarrow> int mh < self_height self \<or> int mw < self_width self))
    \<and> (0 < self_height self \<and> 0 < self_width self \<longrightarrow>
          ((\<exists>e. cnem_get_params uint8_ops self msk8 g = Inl e)
            \<longleftrightarrow> int (fst (mask_shape msk8)) < self_height self
              \<or> int (snd (mask_shape msk8)) < self_width self))
    \<and> (0 < self_height self \<and> 0 < self_width self \<longrightarrow>
          ((\<exists>e. cnem_get_params int64_ops self msk64 g = Inl e)
            \<longleftrightarrow> int (fst (mask_shape msk64)) < self_height self
              \<or> int (snd (mask_shape msk64)) < self_width self))
    \<and> ((\<exists>e. rgs_get_params RandomState (n, m) H W g' = Inl e)
          \<longleftrightarrow> n \<le> 0 \<or> m \<le> 0 \<or> of_int H / 2 < (of_int n :: rat) \<or> of_int W / 2 < (of_int m :: rat))
    \<and> (\<forall>e. rgs_get_params RandomState (n, m) H W g' = Inl e \<longrightarrow> invalid_configuration e)"
proof -
  have c1: "(\<exists>e. cnem_get_params dt self msk g = Inl e \<and> invalid_configuration e)
          \<longleftrightarrow> int mh < self_height self \<or> int mw < self_width self"
  proof
    assume "\<exists>e. cnem_get_params dt self msk g = Inl e \<and> invalid_configuration e"
    then obtain e where e: "cnem_get_params dt self msk g = Inl e" "invalid_configuration e"
      by blast
    show "int mh < self_height self \<or> int mw < self_width self"
    proof (rule ccontr)
      assume "\<not> (int mh < self_height self \<or> int mw < self_width self)"
      then have "self_height self \<le> int mh" "self_width self \<le> int mw" by simp_all
      from cnem_no_configuration_error[OF shape this e(1)] e(2) show False by simp
    qed
  next
    assume "int mh < self_height self \<or> int mw < self_width self"
    from cnem_configuration_error[OF shape this, of dt g]
    show "\<exists>e. cnem_get_params dt self msk g = Inl e \<and> invalid_configuration e" by simp
  qed
  have c2: "(\<exists>e. cnem_get_params dt self msk g = Inl e)
            \<longleftrightarrow> int mh < self_height self \<or> int mw < self_width self"
    if "0 < self_height self \<and> 0 < self_width self
          \<and> (mask_sum_is_zero dt (filtered_mask dt self msk)
              \<or> non_zero_yx dt (filtered_mask dt self msk) \<noteq> [])"
    using that by (intro cnem_error_iff[OF shape]) simp_all
  have c8: "(\<exists>e. cnem_get_params uint8_ops self msk8 g = Inl e)
            \<longleftrightarrow> int (fst (mask_shape msk8)) < self_height self
              \<or> int (snd (mask_shape msk8)) < self_width self"
    if "0 < self_height self \<and> 0 < self_width self"
    using that by (intro cnem_error_iff) (auto dest: uint8_sum_nonzero)
  have c64: "(\<exists>e. cnem_get_params int64_ops self msk64 g = Inl e)
            \<longleftrightarrow> int (fst (mask_shape msk64)) < self_height self
              \<or> int (snd (mask_shape msk64)) < self_width self"
    if "0 < self_height self \<and> 0 < self_width self"
    using that by (intro cnem_error_iff) (auto dest: int64_sum_nonzero)
  define bad where "bad \<longleftrightarrow> n \<le> 0 \<or> m \<le> 0 \<or> H div 2 < n \<or> W div 2 < m"
  have b: "(n \<le> 0 \<or> m \<le> 0 \<or> of_int H / 2 < (of_int n :: rat) \<or> of_int W / 2 < (of_int m :: rat))
      \<longleftrightarrow> bad"
    unfolding bad_def half_less_iff ..
  have g1: "\<exists>e. rgs_get_params RandomState (n, m) H W g' = Inl e \<and> invalid_configuration e" if bad
    using that by (auto simp: bad_def rgs_get_params_def)
  have g2: "\<exists>tiles g''. rgs_get_params RandomState (n, m) H W g' = Inr (tiles, g'')" if "\<not> bad"
    using that by (intro rgs_returns) (simp_all add: bad_def)
  have c3: "(\<exists>e. rgs_get_params RandomState (n, m) H W g' = Inl e) \<longleftrightarrow> bad"
    using g1 g2 by (cases bad) auto
  have c4: "\<forall>e. rgs_get_params RandomState (n, m) H W g' = Inl e \<longrightarrow> invalid_configuration e"
    using g1 g2 by (cases bad) auto
  show ?thesis
    unfolding b
    by (intro conjI impI c1 c3 c4) (rule c2, assumption, rule c8, assumption, rule c64, assumption)
qed

theorem invalid_configuration_iff_witness:
  "(\<exists>e. cnem_get_params uint8_ops example_crop (Mask2 1 4 (\<lambda>y x. 1)) example_rand = Inl e
        \<and> invalid_configuration e)
   \<and> (\<exists>e. rgs_get_params example_generator (3, 2) 5 4 example_rand = Inl e)
   \<and> \<not> (\<exists>e. cnem_get_params uint8_ops example_crop example_mask example_rand = Inl e)
   \<and> \<not> (\<exists>e. cnem_get_params int64_ops example_crop (Mask2 2 2 (\<lambda>y x. - 1)) example_rand
        = Inl e)"
proof -
  have s1: "mask_shape (Mask2 1 4 (\<lambda>y x. 1 :: 8 word)) = (1, 4)" by simp
  have s3: "mask_shape example_mask = (3, 4)" by (simp add: example_mask_def)
  have r: "(5 :: rat) / 2 < 3" by simp
  show ?thesis
    using invalid_configuration_iff[OF s1, where dt = uint8_ops and self = example_crop
        and g = example_rand and ?msk8.0 = example_mask
        and ?msk64.0 = "Mask2 2 2 (\<lambda>y x. - 1)" and RandomState = example_generator
        and n = 3 and m = 2 and H = 5 and W = 4 and g' = example_rand]
    by (simp add: example_crop_def s3)
qed

section \<open>The spacing of the boundaries\<close>

lemma div_step_cases:
  fixes k H n :: int
  assumes "0 < n"
  shows "(k + H) div n = k div n + H div n \<or> (k + H) div n = k div n + H div n + 1"
proof -
  have "0 \<le> k mod n + H mod n" "k mod n + H mod n < 2 * n"
    using assms pos_mod_sign[of n k] pos_mod_sign[of n H] pos_mod_bound[of n k] pos_mod_bound[of n H]
    by linarith+
  then have "(k mod n + H mod n) div n = 0 \<or> (k mod n + H mod n) div n = 1"
  proof (cases "k mod n + H mod n < n")
    case True
    then show ?thesis using \<open>0 \<le> k mod n + H mod n\<close> by (simp add: div_pos_pos_trivial)
  next
    case False
    define t where "t = k mod n + H mod n - n"
    have "0 \<le> t" "t < n" using False \<open>k mod n + H mod n < 2 * n\<close> by (simp_all add: t_def)
    then have "t div n = 0" by (simp add: div_pos_pos_trivial)
    moreover have "k mod n + H mod n = t + n" by (simp add: t_def)
    ultimately have "(k mod n + H mod n) div n = 1" using assms by simp
    then show ?thesis by simp
  qed
  then show ?thesis using div_add1_eq[of k H n] by linarith
qed

lemma ceil_div_cases:
  fixes H n :: int
  assumes "0 < n"
  shows "- ((- H) div n) = (if n dvd H then H div n else H div n + 1)"
  using assms zdiv_zminus1_eq_if[of n H] by (simp add: dvd_eq_mod_eq_0)

lemma div_step_dvd_sum:
  fixes k H n :: int
  assumes "0 < n" "n dvd k + H" "\<not> n dvd H"
  shows "(k + H) div n = k div n + H div n + 1"
proof -
  have "k div n = ((k + H) + (- H)) div n" by simp
  also have "\<dots> = (k + H) div n + (- H) div n" using assms(2) by (rule div_plus_div_distrib_dvd_left)
  also have "(- H) div n = - (H div n) - 1"
    using ceil_div_cases[OF assms(1), of H] assms(3) by simp
  finally show ?thesis by simp
qed

lemma floor_near_quotient:
  fixes k :: int and n :: nat and z :: rat
  assumes n: "0 < n" and z: "\<bar>z - of_int k / of_nat n\<bar> < 1 / of_nat n"
  shows "\<not> int n dvd k \<Longrightarrow> \<lfloor>z\<rfloor> = k div int n"
    and "int n dvd k \<Longrightarrow> \<lfloor>z\<rfloor> = k div int n \<or> \<lfloor>z\<rfloor> = k div int n - 1"
proof -
  define N :: rat where "N = of_nat n"
  define d where "d = k div int n"
  define r where "r = k mod int n"
  have N0: "0 < N" using n by (simp add: N_def)
  have N1: "1 \<le> N" using n by (simp add: N_def Suc_le_eq flip: of_nat_Suc)
  have k: "k = d * int n + r" by (simp add: d_def r_def)
  have "(of_int k :: rat) = of_int d * N + of_int r" by (subst k) (simp add: N_def)
  then have kq: "(of_int k :: rat) / N = of_int d + of_int r / N" using N0 by (simp add: field_simps)
  have zb: "of_int k / N - 1 / N < z" "z < of_int k / N + 1 / N"
    using z unfolding N_def by linarith+
  have inv1: "1 / N \<le> 1" using N1 N0 by simp
  {
    assume "\<not> int n dvd k"
    then have "r \<noteq> 0" by (simp add: r_def dvd_eq_mod_eq_0)
    moreover have "0 \<le> r" "r < int n" using n by (simp_all add: r_def)
    ultimately have r: "1 \<le> r" "r \<le> int n - 1" by linarith+
    then have "(of_int 1 :: rat) \<le> of_int r" "(of_int r :: rat) \<le> of_int (int n - 1)"
      by (simp_all only: of_int_le_iff)
    then have r': "1 \<le> (of_int r :: rat)" "(of_int r :: rat) \<le> N - 1" by (simp_all add: N_def)
    have "1 / N \<le> of_int r / N" using r'(1) N0 by (intro divide_right_mono) simp_all
    moreover have "of_int r / N \<le> (N - 1) / N" using r'(2) N0 by (intro divide_right_mono) simp_all
    moreover have "(N - 1) / N = 1 - 1 / N" using N0 by (simp add: field_simps)
    ultimately have "of_int d < z" "z < of_int d + 1" using zb kq by linarith+
    then have "\<lfloor>z\<rfloor> = d" by (intro floor_unique) simp_all
    then show "\<lfloor>z\<rfloor> = k div int n" by (simp add: d_def)
  }
  {
    assume "int n dvd k"
    then have "r = 0" by (simp add: r_def)
    then have "of_int d - 1 < z" "z < of_int d + 1" using zb kq inv1 by simp_all
    then have "\<lfloor>z\<rfloor> = d \<or> \<lfloor>z\<rfloor> = d - 1"
    proof (cases "of_int d \<le> z")
      case True
      with \<open>z < of_int d + 1\<close> have "\<lfloor>z\<rfloor> = d" by (intro floor_unique) simp_all
      then show ?thesis by simp
    next
      case False
      with \<open>of_int d - 1 < z\<close> have "\<lfloor>z\<rfloor> = d - 1" by (intro floor_unique) simp_all
      then show ?thesis by simp
    qed
    then show "\<lfloor>z\<rfloor> = k div int n \<or> \<lfloor>z\<rfloor> = k div int n - 1" by (simp add: d_def)
  }
qed

lemma linspace_inner_err:
  assumes n: "0 < n" and nH: "int n * 2 \<le> H" and bound: "3 * H * int n < 2 ^ 53" and i: "i < n"
  shows "\<bar>fl64 (of_nat i * fl64 (of_int H / of_nat n)) - of_int (int i * H) / of_nat n\<bar>
    < 1 / of_nat n"
proof -
  define N :: rat where "N = of_nat n"
  define q :: rat where "q = of_int H / N"
  define s where "s = fl64 q"
  define e :: rat where "e = 1 / 2 ^ 53"
  define x :: rat where "x = of_nat i * q"
  define p :: rat where "p = of_nat i * s"
  have H0: "0 < H" using n nH by linarith
  have N0: "0 < N" using n by (simp add: N_def)
  have q0: "0 < q" using H0 N0 by (simp add: q_def)
  have e0: "0 < e" "e \<le> 1" by (simp_all add: e_def)
  have x0: "0 \<le> x" using q0 by (simp add: x_def)
  have qe: "y / 2 ^ 53 = y * e" for y :: rat by (simp add: e_def)
  have "\<bar>s - q\<bar> \<le> q / 2 ^ 53" unfolding s_def using q0 by (intro fl64_err) simp
  then have sq: "\<bar>s - q\<bar> \<le> q * e" by (simp only: qe)
  have s0: "0 < s" unfolding s_def using q0 by (rule fl64_pos)
  have p0: "0 \<le> p" using s0 by (simp add: p_def)
  have "p - x = of_nat i * (s - q)" by (simp add: p_def x_def algebra_simps)
  then have "\<bar>p - x\<bar> = of_nat i * \<bar>s - q\<bar>" by (simp add: abs_mult)
  also have "\<dots> \<le> of_nat i * (q * e)" using sq by (intro mult_left_mono) simp_all
  finally have px: "\<bar>p - x\<bar> \<le> x * e" by (simp add: x_def mult_ac)
  have "\<bar>fl64 p - p\<bar> \<le> p / 2 ^ 53" using p0 by (rule fl64_err)
  then have fp: "\<bar>fl64 p - p\<bar> \<le> p * e" by (simp only: qe)
  have "p \<le> x + x * e" using px by linarith
  then have "p * e \<le> (x + x * e) * e" using e0 by (intro mult_right_mono) simp_all
  also have "\<dots> \<le> (x + x * 1) * e" using e0 x0 by (intro mult_right_mono add_left_mono mult_left_mono) simp_all
  finally have pe: "p * e \<le> 2 * (x * e)" by simp
  have tot: "\<bar>fl64 p - x\<bar> \<le> 3 * (x * e)" using fp px pe by linarith
  have "(of_nat i :: rat) \<le> N" using i by (simp add: N_def)
  then have "x \<le> N * q" unfolding x_def using q0 by (intro mult_right_mono) simp_all
  also have "N * q = of_int H" using N0 by (simp add: q_def)
  finally have xH: "x \<le> of_int H" .
  have "x * e \<le> of_int H * e" using xH e0 by (intro mult_right_mono) simp_all
  with tot have tot': "\<bar>fl64 p - x\<bar> \<le> 3 * (of_int H * e)" by linarith
  have "(of_int (3 * H * int n) :: rat) < of_int (2 ^ 53)" using bound by (simp only: of_int_less_iff)
  then have "3 * of_int H * N < (2 ^ 53 :: rat)" by (simp add: N_def)
  then have "3 * of_int H * N * e < 2 ^ 53 * e" using e0 by (intro mult_strict_right_mono) simp_all
  also have "2 ^ 53 * e = 1" by (simp add: e_def)
  finally have "3 * (of_int H * e) * N < 1" by (simp add: mult_ac)
  then have "3 * (of_int H * e) < 1 / N" using N0 by (simp add: field_simps)
  with tot' have "\<bar>fl64 p - x\<bar> < 1 / N" by linarith
  moreover have "x = of_int (int i * H) / of_nat n" by (simp add: x_def q_def N_def)
  ultimately show ?thesis by (simp add: p_def s_def q_def N_def)
qed

lemma linspace_inner_exact:
  assumes n: "0 < n" and dvd: "int n dvd H" and H: "0 < H" "H < 2 ^ 53" and i: "i \<le> n"
  shows "fl64 (of_nat i * fl64 (of_int H / of_nat n)) = of_int (int i * (H div int n))"
proof -
  define a where "a = H div int n"
  have Ha: "H = int n * a" using dvd by (simp add: a_def)
  have a0: "0 \<le> a" using H(1) n by (simp add: a_def pos_imp_zdiv_nonneg_iff)
  have "int i * a \<le> int n * a" using i a0 by (intro mult_right_mono) simp_all
  then have ia: "0 \<le> int i * a" "int i * a < 2 ^ 53" using a0 H(2) Ha by simp_all
  have "1 * a \<le> int n * a" using n a0 by (intro mult_right_mono) simp_all
  then have a53: "\<bar>a\<bar> < 2 ^ 53" using a0 H(2) Ha by simp
  have "(of_int H :: rat) / of_nat n = of_int a" using n by (subst Ha) simp
  then have "fl64 (of_int H / of_nat n) = of_int a" using fl64_of_int[OF a53] by simp
  moreover have "fl64 (of_int (int i * a)) = of_int (int i * a)" using ia by (intro fl64_of_int) simp
  ultimately show ?thesis by (simp add: a_def)
qed

lemma linspace_floor_or_below:
  assumes n: "0 < n" and nH: "int n * 2 \<le> H" and bound: "3 * H * int n < 2 ^ 53" and i: "i \<le> n"
  defines "b \<equiv> linspace 0 H (n + 1)"
  shows "b ! i = (int i * H) div int n
     \<or> (b ! i = (int i * H) div int n - 1 \<and> int n dvd int i * H \<and> \<not> int n dvd H)"
proof -
  have H0: "0 < H" using n nH by linarith
  have "1 * H \<le> 3 * int n * H" using n H0 by (intro mult_right_mono) simp_all
  then have H53: "H < 2 ^ 53" using bound by (simp add: mult_ac)
  define g where "g = (\<lambda>i::nat. \<lfloor>fl64 (of_nat i * fl64 (of_int H / of_nat n))\<rfloor>)"
  have b: "b = map g [0..<n] @ [H]" unfolding b_def g_def by (rule linspace_grid[OF n nH H53])
  show ?thesis
  proof (cases "i = n")
    case True
    then show ?thesis using n by (simp add: b nth_append)
  next
    case False
    then have i': "i < n" using i by simp
    then have bi: "b ! i = g i" by (simp add: b nth_append)
    show ?thesis
    proof (cases "int n dvd H")
      case True
      have "g i = int i * (H div int n)"
        unfolding g_def linspace_inner_exact[OF n True H0 H53 i] by (rule floor_of_int)
      also have "\<dots> = (int i * H) div int n" using True by (rule div_mult_swap)
      finally show ?thesis by (simp add: bi)
    next
      case nd: False
      note err = linspace_inner_err[OF n nH bound i']
      show ?thesis
      proof (cases "int n dvd int i * H")
        case True
        from floor_near_quotient(2)[OF n err True] show ?thesis
          using True nd by (auto simp: bi g_def)
      next
        case False
        from floor_near_quotient(1)[OF n err False] show ?thesis by (simp add: bi g_def)
      qed
    qed
  qed
qed

lemma floor_ceiling_quotient:
  fixes H :: int and n :: nat
  assumes "0 < n"
  shows "\<lfloor>(of_int H :: rat) / of_nat n\<rfloor> = H div int n"
    and "\<lceil>(of_int H :: rat) / of_nat n\<rceil> = (if int n dvd H then H div int n else H div int n + 1)"
proof -
  have f: "\<lfloor>(of_int k :: rat) / of_nat n\<rfloor> = k div int n" for k
    using floor_divide_of_int_eq[of k "int n", where ?'a = rat] by simp
  show "\<lfloor>(of_int H :: rat) / of_nat n\<rfloor> = H div int n" by (rule f)
  have "\<lceil>(of_int H :: rat) / of_nat n\<rceil> = - \<lfloor>(of_int (- H) :: rat) / of_nat n\<rfloor>"
    by (simp add: ceiling_def)
  also have "\<dots> = - ((- H) div int n)" by (simp only: f)
  also have "\<dots> = (if int n dvd H then H div int n else H div int n + 1)"
    using assms by (intro ceil_div_cases) simp
  finally show "\<lceil>(of_int H :: rat) / of_nat n\<rceil>
      = (if int n dvd H then H div int n else H div int n + 1)" .
qed

text \<open>
  C4 as stated fails: the earlier cells do not absorb the extra unit. For the height 5 and
  two rows the boundaries are 0, 2 and 5: the first cell has the height \<open>floor (5 / 2)\<close>
  and the second, last cell the height \<open>ceiling (5 / 2)\<close>.
\<close>

theorem linspace_extra_unit_counterexample:
  "linspace 0 5 (2 + 1) = [0, 2, 5]
   \<and> height_tile_sizes (grid_partition 5 4 2 2) = [[2, 2], [3, 3]]
   \<and> \<lfloor>(5 :: rat) / 2\<rfloor> = 2 \<and> \<lceil>(5 :: rat) / 2\<rceil> = 3"
proof -
  have "linspace 0 5 (2 + 1) = [0, 2, 5]" by code_simp
  moreover have "height_tile_sizes (grid_partition 5 4 2 2) = [[2, 2], [3, 3]]" by code_simp
  moreover have "\<lfloor>(5 :: rat) / 2\<rfloor> = 2" by (rule floor_unique) simp_all
  moreover have "\<lceil>(5 :: rat) / 2\<rceil> = 3" by (rule ceiling_unique) simp_all
  ultimately show ?thesis by simp
qed

text \<open>
  C4, amended. For \<open>0 < n \<le> H div 2\<close> and \<open>H \<le> 2 ^ 26\<close> the \<open>n + 1\<close> boundaries are integers
  from 0 to \<open>H\<close>, consecutive boundaries differ by \<open>floor (H / n)\<close> or \<open>ceiling (H / n)\<close>,
  the first cell has the size \<open>floor (H / n)\<close> and the last cell has the size
  \<open>ceiling (H / n)\<close>. The same holds for the columns, with the width and \<open>m\<close>.
\<close>

theorem linspace_spacing:
  assumes n: "0 < n" "int n \<le> H div 2" and H: "H \<le> 2 ^ 26"
  defines "b \<equiv> linspace 0 H (n + 1)"
  shows "length b = n + 1 \<and> b ! 0 = 0 \<and> b ! n = H
    \<and> (\<forall>i<n. b ! (i + 1) - b ! i = \<lfloor>(of_int H :: rat) / of_nat n\<rfloor>
            \<or> b ! (i + 1) - b ! i = \<lceil>(of_int H :: rat) / of_nat n\<rceil>)
    \<and> b ! 1 - b ! 0 = \<lfloor>(of_int H :: rat) / of_nat n\<rfloor>
    \<and> b ! n - b ! (n - 1) = \<lceil>(of_int H :: rat) / of_nat n\<rceil>"
proof -
  define a where "a = H div int n"
  define c where "c = (if int n dvd H then a else a + 1)"
  define Z where "Z = (\<lambda>i::nat. (int i * H) div int n)"
  have nH: "int n * 2 \<le> H" using n(2) by linarith
  have H0: "0 < H" using n(1) nH by linarith
  have n25: "int n \<le> 2 ^ 25" using nH H by simp
  have "H * int n \<le> 2 ^ 26 * 2 ^ 25" using H n25 H0 by (intro mult_mono) simp_all
  then have bound: "3 * H * int n < 2 ^ 53" by simp
  have H53: "H < 2 ^ 53" using H by simp
  note bd = linspace_boundaries[OF n(1) nH H53, folded b_def]
  note fc = floor_ceiling_quotient[OF n(1), of H, folded a_def, folded c_def]
  have P: "b ! i = Z i \<or> (b ! i = Z i - 1 \<and> int n dvd int i * H \<and> \<not> int n dvd H)"
    if "i \<le> n" for i
    unfolding Z_def b_def by (rule linspace_floor_or_below[OF n(1) nH bound that])
  have n0: "(0::int) < int n" using n(1) by simp
  have Zs: "Z (i + 1) = (int i * H + H) div int n" for i by (simp add: Z_def algebra_simps)
  have f1: "Z (i + 1) = Z i + a \<or> Z (i + 1) = Z i + a + 1" for i
    unfolding Zs using div_step_cases[OF n0, of "int i * H" H] by (simp add: Z_def a_def)
  have f2: "Z (i + 1) = Z i + a" if "int n dvd H" for i
    unfolding Zs using div_plus_div_distrib_dvd_right[OF that, of "int i * H"]
    by (simp add: Z_def a_def)
  have f3: "Z (i + 1) = Z i + a" if "int n dvd int i * H" for i
    unfolding Zs using div_plus_div_distrib_dvd_left[OF that, of H] by (simp add: Z_def a_def)
  have f4: "Z (i + 1) = Z i + a + 1" if "int n dvd int (i + 1) * H" "\<not> int n dvd H" for i
  proof -
    have "int n dvd int i * H + H" using that(1) by (simp add: algebra_simps)
    from div_step_dvd_sum[OF n0 this that(2)] show ?thesis unfolding Zs by (simp add: Z_def a_def)
  qed
  have f5: "int n dvd H" if "int n dvd int i * H" "int n dvd int (i + 1) * H" for i
  proof -
    have "int n dvd int i * H + H" using that(2) by (simp add: algebra_simps)
    with that(1) show ?thesis by (simp add: dvd_add_right_iff)
  qed
  have step: "b ! (i + 1) - b ! i = a \<or> b ! (i + 1) - b ! i = c" if i: "i < n" for i
  proof -
    from i have le: "i \<le> n" "i + 1 \<le> n" by simp_all
    note Pi = P[OF le(1)] and Pj = P[OF le(2)]
    show ?thesis
    proof (cases "int n dvd H")
      case True
      with Pi Pj have "b ! i = Z i" "b ! (i + 1) = Z (i + 1)" by auto
      then show ?thesis using f2[OF True, of i] by simp
    next
      case nd: False
      then have c: "c = a + 1" by (simp add: c_def)
      from Pi show ?thesis
      proof
        assume bi: "b ! i = Z i"
        from Pj show ?thesis
        proof
          assume "b ! (i + 1) = Z (i + 1)"
          then show ?thesis using bi f1[of i] c by auto
        next
          assume "b ! (i + 1) = Z (i + 1) - 1 \<and> int n dvd int (i + 1) * H \<and> \<not> int n dvd H"
          then show ?thesis using bi f4[of i] by auto
        qed
      next
        assume bi: "b ! i = Z i - 1 \<and> int n dvd int i * H \<and> \<not> int n dvd H"
        from Pj show ?thesis
        proof
          assume "b ! (i + 1) = Z (i + 1)"
          then show ?thesis using bi f3[of i] c by auto
        next
          assume "b ! (i + 1) = Z (i + 1) - 1 \<and> int n dvd int (i + 1) * H \<and> \<not> int n dvd H"
          then show ?thesis using bi f5[of i] by auto
        qed
      qed
    qed
  qed
  have first: "b ! 1 - b ! 0 = a"
  proof -
    have "1 \<le> n" using n(1) by simp
    from P[OF this] have "b ! 1 = Z 1" by auto
    then show ?thesis by (simp add: bd Z_def a_def)
  qed
  have last: "b ! n - b ! (n - 1) = c"
  proof -
    have "int (n - 1) * H = int n * H - H" using n(1) by (simp add: of_nat_diff algebra_simps)
    then have e: "int (n - 1) * H = (- H) + int n * H" by simp
    have nd: "int n dvd H" if "int n dvd int (n - 1) * H"
    proof -
      have "int n dvd int n * H - int (n - 1) * H" using that by (intro dvd_diff) simp_all
      moreover have "int n * H - int (n - 1) * H = H" using e by linarith
      ultimately show ?thesis by simp
    qed
    from P[of "n - 1"] nd have "b ! (n - 1) = Z (n - 1)" by auto
    also have "\<dots> = ((- H) + int n * H) div int n" by (simp only: Z_def e)
    also have "\<dots> = H + (- H) div int n" using n0 by (intro div_mult_self2) simp
    also have "(- H) div int n = - c"
    proof -
      have "- ((- H) div int n) = c" using ceil_div_cases[OF n0, of H] by (simp only: c_def a_def)
      then show ?thesis by linarith
    qed
    finally show ?thesis by (simp add: bd)
  qed
  show ?thesis unfolding fc using bd(1-3) step first last by blast
qed

theorem linspace_spacing_witness:
  "length (linspace 0 7 (3 + 1)) = 3 + 1 \<and> linspace 0 7 (3 + 1) ! 0 = 0 \<and> linspace 0 7 (3 + 1) ! 3 = 7
   \<and> linspace 0 7 (3 + 1) ! 1 - linspace 0 7 (3 + 1) ! 0 = 2
   \<and> linspace 0 7 (3 + 1) ! 3 - linspace 0 7 (3 + 1) ! (3 - 1) = 3"
proof -
  have f: "\<lfloor>(7 :: rat) / 3\<rfloor> = 2" by (rule floor_unique) simp_all
  have c: "\<lceil>(7 :: rat) / 3\<rceil> = 3" by (rule ceiling_unique) simp_all
  show ?thesis using linspace_spacing[of 3 7] by (simp add: f c)
qed

end
